theory Spec2Isabelle
  imports Main "HOL-Library.Word"
begin

section \<open>Identifiers and messages (serverlib/server.go, serverlib/message.go)\<close>

text \<open>
  \<^verbatim>\<open>type UserId int64\<close> and \<^verbatim>\<open>type SeqId uint64\<close>: both are 64-bit words; a user id is
  read with \<open>sint\<close>, a sequence number with \<open>unat\<close>, and \<open>+\<close> wraps as Go's does.
\<close>

type_synonym UserId = "64 word"
type_synonym SeqId = "64 word"

text \<open>
  The five structs that implement the interface \<^verbatim>\<open>Message\<close>. A nil interface value is
  \<open>None\<close> of \<open>Message option\<close> wherever the code can produce one.
\<close>

datatype Message =
    Follow SeqId UserId UserId
  | Unfollow SeqId UserId UserId
  | Broadcast SeqId
  | StatusUpdate SeqId UserId
  | PrivateMessage SeqId UserId UserId

text \<open>The method \<^verbatim>\<open>Id()\<close> of each struct returns its field \<^verbatim>\<open>Seq\<close>.\<close>

fun Id_msg :: "Message \<Rightarrow> SeqId" where
  "Id_msg (Follow q f t) = q"
| "Id_msg (Unfollow q f t) = q"
| "Id_msg (Broadcast q) = q"
| "Id_msg (StatusUpdate q f) = q"
| "Id_msg (PrivateMessage q f t) = q"

section \<open>The wire codec (serverlib/message.go, serverlib/server.go)\<close>

text \<open>
  This is the codec of \<^verbatim>\<open>serverlib/message.go\<close>, the one the dispatcher of package
  \<^verbatim>\<open>net\<close> calls (\<^verbatim>\<open>String\<close>, \<^verbatim>\<open>ParseMessage\<close> with two results). A string is Go's: a
  list of bytes.

  The errors the code passes around: a \<^verbatim>\<open>*strconv.NumError\<close> with its function name,
  its input and its cause, a value of \<^verbatim>\<open>errors.New\<close>, and an error of the connection's
  reader.
\<close>

datatype NumErr = ErrSyntax | ErrRange

datatype error =
    NumError string string NumErr
  | ErrorNew string
  | ReadError

subsection \<open>Go's \<^verbatim>\<open>strconv.ParseUint(s, 10, 64)\<close> and \<^verbatim>\<open>strconv.ParseInt(s, 10, 64)\<close>\<close>

text \<open>
  The library loop reads the bytes from the left with an accumulator of type
  \<^verbatim>\<open>uint64\<close>; the accumulator is a natural number here and every product and sum is taken
  modulo \<open>2 ^ 64\<close>, as the machine does. \<open>digit_of\<close> is the \<^verbatim>\<open>switch\<close> that turns a byte
  into a digit value; a value of 10 or more is a syntax error in base 10.
\<close>

definition maxUint64 :: nat where
  "maxUint64 = 2 ^ 64 - 1"

definition cutoff10 :: nat where
  "cutoff10 = maxUint64 div 10 + 1"

definition digit_of :: "char \<Rightarrow> nat option" where
  "digit_of d =
     (let b = (of_char d :: nat) in
      if 48 \<le> b \<and> b \<le> 57 then Some (b - 48)
      else if 97 \<le> b \<and> b \<le> 122 then Some (b - 97 + 10)
      else if 65 \<le> b \<and> b \<le> 90 then Some (b - 65 + 10)
      else None)"

fun ParseUint_loop :: "string \<Rightarrow> nat \<Rightarrow> nat \<times> NumErr option" where
  "ParseUint_loop [] n = (n, None)"
| "ParseUint_loop (d # ds) n =
     (case digit_of d of
        None \<Rightarrow> (0, Some ErrSyntax)
      | Some v \<Rightarrow>
          if v \<ge> 10 then (0, Some ErrSyntax)
          else if n \<ge> cutoff10 then (maxUint64, Some ErrRange)
          else
            let n10 = (n * 10) mod 2 ^ 64;
                n1 = (n10 + v) mod 2 ^ 64
            in if n1 < n10 \<or> n1 > maxUint64 then (maxUint64, Some ErrRange)
               else ParseUint_loop ds n1)"

definition ParseUint :: "string \<Rightarrow> nat \<times> error option" where
  "ParseUint s =
     (if length s < 1 then (0, Some (NumError ''ParseUint'' s ErrSyntax))
      else case ParseUint_loop s 0 of
             (n, None) \<Rightarrow> (n, None)
           | (n, Some e) \<Rightarrow> (n, Some (NumError ''ParseUint'' s e)))"

text \<open>
  \<^verbatim>\<open>ParseInt\<close> takes a leading sign off, calls \<^verbatim>\<open>ParseUint\<close>, passes a syntax error on under
  its own name and checks the range of the sign. The value returned without an error is
  \<^verbatim>\<open>int64(un)\<close>, negated under a minus sign; this is the integer written, also for
  \<^verbatim>\<open>-9223372036854775808\<close>, where both conversions wrap.
\<close>

definition is_range_error :: "error option \<Rightarrow> bool" where
  "is_range_error err =
     (case err of Some (NumError f x ErrRange) \<Rightarrow> True | _ \<Rightarrow> False)"

definition ParseInt :: "string \<Rightarrow> int \<times> error option" where
  "ParseInt s0 =
     (if length s0 = 0 then (0, Some (NumError ''ParseInt'' s0 ErrSyntax))
      else
        let neg = (hd s0 = CHR ''-'');
            s = (if hd s0 = CHR ''+'' \<or> hd s0 = CHR ''-'' then tl s0 else s0);
            (un, err) = ParseUint s
        in if err \<noteq> None \<and> \<not> is_range_error err
           then (0, Some (NumError ''ParseInt'' s0 ErrSyntax))
           else
             let cutoff = (2 ^ 63 :: nat) in
             if \<not> neg \<and> un \<ge> cutoff then (int cutoff - 1, Some (NumError ''ParseInt'' s0 ErrRange))
             else if neg \<and> un > cutoff then (- int cutoff, Some (NumError ''ParseInt'' s0 ErrRange))
             else (if neg then - int un else int un, None))"

subsection \<open>\<^verbatim>\<open>ParseUserId\<close> and \<^verbatim>\<open>ParseSeqId\<close> (serverlib/server.go)\<close>

definition UserIdInvalid :: UserId where
  "UserIdInvalid = - 1"

definition ParseUserId :: "string \<Rightarrow> UserId \<times> error option" where
  "ParseUserId data =
     (case ParseInt data of
        (idno, Some err) \<Rightarrow> (UserIdInvalid, Some err)
      | (idno, None) \<Rightarrow> (word_of_int idno, None))"

definition ParseSeqId :: "string \<Rightarrow> SeqId \<times> error option" where
  "ParseSeqId data = (case ParseUint data of (idno, err) \<Rightarrow> (of_nat idno, err))"

subsection \<open>Go's \<^verbatim>\<open>strings.Split\<close> and \<^verbatim>\<open>strings.TrimSpace\<close>\<close>

text \<open>
  \<^verbatim>\<open>Split(s, sep)\<close> cuts \<open>s\<close> at every occurrence of \<open>sep\<close>, found from the left and not
  overlapping; the pieces are one more than the cuts. The code calls it with a separator
  that is not empty.
\<close>

function Split :: "string \<Rightarrow> string \<Rightarrow> string list" where
  "Split [] sep = [[]]"
| "Split (c # cs) sep =
     (if sep \<noteq> [] \<and> take (length sep) (c # cs) = sep
      then [] # Split (drop (length sep) (c # cs)) sep
      else (case Split cs sep of
              p # ps \<Rightarrow> (c # p) # ps
            | [] \<Rightarrow> [[c]]))"
  by pat_completeness auto
termination
  by (relation "measure (\<lambda>(s, sep). length s)") auto

text \<open>
  \<^verbatim>\<open>TrimSpace\<close> removes the leading and the trailing white space, as
  \<^verbatim>\<open>unicode.IsSpace\<close> defines it. \<open>space_runes\<close> lists the UTF-8 encodings of these code
  points: tab, line feed, vertical tab, form feed, carriage return, space, U+0085, U+00A0,
  U+1680, U+2000 to U+200A, U+2028, U+2029, U+202F, U+205F and U+3000.
\<close>

definition space_runes :: "string list" where
  "space_runes =
     [[CHR 0x09], [CHR 0x0A], [CHR 0x0B], [CHR 0x0C], [CHR 0x0D], [CHR 0x20],
      [CHR 0xC2, CHR 0x85], [CHR 0xC2, CHR 0xA0],
      [CHR 0xE1, CHR 0x9A, CHR 0x80],
      [CHR 0xE2, CHR 0x80, CHR 0x80], [CHR 0xE2, CHR 0x80, CHR 0x81],
      [CHR 0xE2, CHR 0x80, CHR 0x82], [CHR 0xE2, CHR 0x80, CHR 0x83],
      [CHR 0xE2, CHR 0x80, CHR 0x84], [CHR 0xE2, CHR 0x80, CHR 0x85],
      [CHR 0xE2, CHR 0x80, CHR 0x86], [CHR 0xE2, CHR 0x80, CHR 0x87],
      [CHR 0xE2, CHR 0x80, CHR 0x88], [CHR 0xE2, CHR 0x80, CHR 0x89],
      [CHR 0xE2, CHR 0x80, CHR 0x8A],
      [CHR 0xE2, CHR 0x80, CHR 0xA8], [CHR 0xE2, CHR 0x80, CHR 0xA9],
      [CHR 0xE2, CHR 0x80, CHR 0xAF], [CHR 0xE2, CHR 0x81, CHR 0x9F],
      [CHR 0xE3, CHR 0x80, CHR 0x80]]"

function trim_left :: "string list \<Rightarrow> string \<Rightarrow> string" where
  "trim_left ps s =
     (case List.find (\<lambda>p. p \<noteq> [] \<and> take (length p) s = p) ps of
        None \<Rightarrow> s
      | Some p \<Rightarrow> trim_left ps (drop (length p) s))"
  by pat_completeness auto
termination
proof (relation "measure (\<lambda>(ps, s). length s)")
  show "wf (measure (\<lambda>(ps, s). length s))"
    by simp
next
  fix ps :: "string list" and s p :: string
  assume "List.find (\<lambda>p. p \<noteq> [] \<and> take (length p) s = p) ps = Some p"
  then have "p \<noteq> []" and "take (length p) s = p"
    by (auto simp: find_Some_iff)
  have "length (take (length p) s) = length p"
    by (simp only: \<open>take (length p) s = p\<close>)
  then have "length p \<le> length s"
    by simp
  moreover have "0 < length p"
    using \<open>p \<noteq> []\<close> by simp
  ultimately have "length s - length p < length s"
    by arith
  then show "((ps, drop (length p) s), ps, s) \<in> measure (\<lambda>(ps, s). length s)"
    by simp
qed

definition TrimSpace :: "string \<Rightarrow> string" where
  "TrimSpace s = rev (trim_left (map rev space_runes) (rev (trim_left space_runes s)))"

subsection \<open>Encoding: the methods \<^verbatim>\<open>String()\<close>\<close>

text \<open>
  The verb \<^verbatim>\<open>%d\<close> of \<^verbatim>\<open>fmt.Sprintf\<close> writes a \<^verbatim>\<open>uint64\<close> in decimal, and an \<^verbatim>\<open>int64\<close> in
  decimal after a minus sign when it is negative.
\<close>

definition digit_char :: "nat \<Rightarrow> char" where
  "digit_char d = ''0123456789'' ! d"

fun fmt_uint :: "nat \<Rightarrow> string" where
  "fmt_uint n =
     (if n < 10 then [digit_char n] else fmt_uint (n div 10) @ [digit_char (n mod 10)])"

definition fmt_int :: "int \<Rightarrow> string" where
  "fmt_int i = (if i < 0 then CHR ''-'' # fmt_uint (nat (- i)) else fmt_uint (nat i))"

definition CRLF :: string where
  "CRLF = [CHR 0x0D, CHR 0x0A]"

fun String :: "Message \<Rightarrow> string" where
  "String (Follow q f t) =
     fmt_uint (unat q) @ ''|F|'' @ fmt_int (sint f) @ ''|'' @ fmt_int (sint t) @ CRLF"
| "String (Unfollow q f t) =
     fmt_uint (unat q) @ ''|U|'' @ fmt_int (sint f) @ ''|'' @ fmt_int (sint t) @ CRLF"
| "String (Broadcast q) = fmt_uint (unat q) @ ''|B'' @ CRLF"
| "String (StatusUpdate q f) = fmt_uint (unat q) @ ''|S|'' @ fmt_int (sint f) @ CRLF"
| "String (PrivateMessage q f t) =
     fmt_uint (unat q) @ ''|P|'' @ fmt_int (sint f) @ ''|'' @ fmt_int (sint t) @ CRLF"

subsection \<open>Decoding: \<^verbatim>\<open>NewMessage\<close> and \<^verbatim>\<open>ParseMessage\<close>\<close>

text \<open>
  Every function returns Go's pair of a message and an error; a nil message is \<open>None\<close>
  and a nil error is \<open>None\<close>.
\<close>

definition NewFollow :: "SeqId \<Rightarrow> UserId list \<Rightarrow> Message option \<times> error option" where
  "NewFollow s args =
     (if length args \<noteq> 2 then (None, Some (ErrorNew ''Invalid number of arguments to NewFollow''))
      else (Some (Follow s (args ! 0) (args ! 1)), None))"

definition NewUnfollow :: "SeqId \<Rightarrow> UserId list \<Rightarrow> Message option \<times> error option" where
  "NewUnfollow s args =
     (if length args \<noteq> 2 then (None, Some (ErrorNew ''Invalid number of arguments to NewUnfollow''))
      else (Some (Unfollow s (args ! 0) (args ! 1)), None))"

definition NewBroadcast :: "SeqId \<Rightarrow> UserId list \<Rightarrow> Message option \<times> error option" where
  "NewBroadcast s args =
     (if length args \<noteq> 0 then (None, Some (ErrorNew ''Invalid number of arguments to NewBroadcast''))
      else (Some (Broadcast s), None))"

definition NewStatusUpdate :: "SeqId \<Rightarrow> UserId list \<Rightarrow> Message option \<times> error option" where
  "NewStatusUpdate s args =
     (if length args \<noteq> 1
      then (None, Some (ErrorNew ''Invalid number of arguments to NewStatusUpdate''))
      else (Some (StatusUpdate s (args ! 0)), None))"

definition NewPrivateMessage :: "SeqId \<Rightarrow> UserId list \<Rightarrow> Message option \<times> error option" where
  "NewPrivateMessage s args =
     (if length args \<noteq> 2
      then (None, Some (ErrorNew ''Invalid number of arguments to NewPrivateMessage''))
      else (Some (PrivateMessage s (args ! 0) (args ! 1)), None))"

definition msgTypeMap ::
  "string \<rightharpoonup> (SeqId \<Rightarrow> UserId list \<Rightarrow> Message option \<times> error option)" where
  "msgTypeMap =
     [''F'' \<mapsto> NewFollow, ''U'' \<mapsto> NewUnfollow, ''B'' \<mapsto> NewBroadcast,
      ''S'' \<mapsto> NewStatusUpdate, ''P'' \<mapsto> NewPrivateMessage]"

definition NewMessage :: "SeqId \<Rightarrow> string \<Rightarrow> UserId list \<Rightarrow> Message option \<times> error option" where
  "NewMessage seqNo msgType args =
     (case msgTypeMap msgType of
        Some fnew \<Rightarrow> fnew seqNo args
      | None \<Rightarrow> (None, Some (ErrorNew (''Unknown message type '' @ msgType))))"

text \<open>The loop of \<^verbatim>\<open>ParseMessage\<close> over \<^verbatim>\<open>parts[2:]\<close>: the first error ends it.\<close>

fun parse_args :: "string list \<Rightarrow> UserId list \<Rightarrow> error + UserId list" where
  "parse_args [] args = Inr args"
| "parse_args (arg # rest) args =
     (case ParseUserId arg of
        (v, Some err) \<Rightarrow> Inl err
      | (v, None) \<Rightarrow> parse_args rest (args @ [v]))"

definition ParseMessage :: "string \<Rightarrow> Message option \<times> error option" where
  "ParseMessage msgStr0 =
     (let msgStr = TrimSpace msgStr0;
          parts = Split msgStr ''|''
      in if length parts < 2
         then (None, Some (ErrorNew (''Invalid message format: '' @ msgStr)))
         else
           (case ParseSeqId (parts ! 0) of
              (seq, Some err) \<Rightarrow> (None, Some err)
            | (seq, None) \<Rightarrow>
                (case parse_args (drop 2 parts) [] of
                   Inl err \<Rightarrow> (None, Some err)
                 | Inr args \<Rightarrow> NewMessage seq (parts ! 1) args)))"

subsection \<open>An earlier revision of the codec (src/unnamed/part_000)\<close>

text \<open>
  src/unnamed/part_000 is a revision of \<^verbatim>\<open>message.go\<close> that the dispatcher does not
  compile against: its messages have \<^verbatim>\<open>Format\<close> and no \<^verbatim>\<open>String\<close> or \<^verbatim>\<open>Dispatch\<close>, its
  user ids are \<^verbatim>\<open>uint64\<close>, its separator is a backslash followed by a bar, and its
  \<^verbatim>\<open>ParseMessage\<close> does not trim the line. It is modelled here to record where it differs;
  the theorems about the codec are about the revision above.
\<close>

datatype Message_v0 =
    MessageNoArgs "8 word" SeqId
  | MessageFrom "8 word" SeqId "64 word"
  | MessageFromTo "8 word" SeqId "64 word" "64 word"

definition MsgTypeError :: "8 word" where
  "MsgTypeError = 0"

definition MsgFollow :: "8 word" where
  "MsgFollow = 1"

definition MsgUnfollow :: "8 word" where
  "MsgUnfollow = 2"

definition MsgBroadcast :: "8 word" where
  "MsgBroadcast = 3"

definition MsgPrivateMsg :: "8 word" where
  "MsgPrivateMsg = 4"

definition MsgStatusUpdate :: "8 word" where
  "MsgStatusUpdate = 5"

definition typeStrMap :: "string \<rightharpoonup> 8 word" where
  "typeStrMap =
     [''F'' \<mapsto> MsgFollow, ''U'' \<mapsto> MsgUnfollow, ''B'' \<mapsto> MsgBroadcast,
      ''P'' \<mapsto> MsgPrivateMsg, ''S'' \<mapsto> MsgStatusUpdate]"

definition typeNumMap :: "8 word \<rightharpoonup> string" where
  "typeNumMap =
     [MsgFollow \<mapsto> ''F'', MsgUnfollow \<mapsto> ''U'', MsgBroadcast \<mapsto> ''B'',
      MsgPrivateMsg \<mapsto> ''P'', MsgStatusUpdate \<mapsto> ''S'']"

definition MessageTypeStr :: "8 word \<Rightarrow> string" where
  "MessageTypeStr msgType = (case typeNumMap msgType of None \<Rightarrow> [] | Some c \<Rightarrow> c)"

definition MessageTypeNo :: "string \<Rightarrow> 8 word" where
  "MessageTypeNo msgTypeChar =
     (case typeStrMap msgTypeChar of None \<Rightarrow> MsgTypeError | Some t \<Rightarrow> t)"

definition sep_v0 :: string where
  "sep_v0 = [CHR 0x5C, CHR ''|'']"

fun Format :: "Message_v0 \<Rightarrow> string" where
  "Format (MessageNoArgs t q) = fmt_uint (unat q) @ sep_v0 @ MessageTypeStr t @ CRLF"
| "Format (MessageFrom t q f) =
     fmt_uint (unat q) @ sep_v0 @ MessageTypeStr t @ sep_v0 @ fmt_uint (unat f) @ CRLF"
| "Format (MessageFromTo t q f u) =
     fmt_uint (unat q) @ sep_v0 @ MessageTypeStr t @ sep_v0 @ fmt_uint (unat f) @ sep_v0
       @ fmt_uint (unat u) @ CRLF"

definition NewMessage_v0 ::
  "SeqId \<Rightarrow> 8 word \<Rightarrow> 64 word list \<Rightarrow> Message_v0 option \<times> error option" where
  "NewMessage_v0 seqNo msgType args =
     (if msgType = MsgFollow \<or> msgType = MsgUnfollow \<or> msgType = MsgPrivateMsg then
        (if length args \<noteq> 2 then (None, Some (ErrorNew ''Invalid number of arguments to message''))
         else (Some (MessageFromTo msgType seqNo (args ! 0) (args ! 1)), None))
      else if msgType = MsgBroadcast then
        (if length args \<noteq> 0 then (None, Some (ErrorNew ''Invalid number of arguments to message''))
         else (Some (MessageNoArgs msgType seqNo), None))
      else if msgType = MsgStatusUpdate then
        (if length args \<noteq> 1 then (None, Some (ErrorNew ''Invalid number of arguments to message''))
         else (Some (MessageFrom msgType seqNo (args ! 0)), None))
      else (None, Some (ErrorNew ''Unknown message type'')))"

fun parse_args_v0 :: "string list \<Rightarrow> 64 word list \<Rightarrow> error + 64 word list" where
  "parse_args_v0 [] args = Inr args"
| "parse_args_v0 (arg # rest) args =
     (case ParseUint arg of
        (v, Some err) \<Rightarrow> Inl err
      | (v, None) \<Rightarrow> parse_args_v0 rest (args @ [of_nat v]))"

definition ParseMessage_v0 :: "string \<Rightarrow> Message_v0 option \<times> error option" where
  "ParseMessage_v0 msgStr =
     (let parts = Split msgStr sep_v0
      in if length parts \<le> 2 then (None, Some (ErrorNew ''Invalid message format''))
         else
           (case ParseUint (parts ! 0) of
              (seq, Some err) \<Rightarrow> (None, Some err)
            | (seq, None) \<Rightarrow>
                (case parse_args_v0 (drop 2 parts) [] of
                   Inl err \<Rightarrow> (None, Some err)
                 | Inr args \<Rightarrow> NewMessage_v0 (of_nat seq) (MessageTypeNo (parts ! 1)) args)))"

section \<open>The server state (package net, NetServer)\<close>

text \<open>
  A client is a connection together with the user id that \<^verbatim>\<open>Init()\<close> read from it; the
  connection is identified by a number. An event source is identified by a number too.
\<close>

record Client =
  conn :: nat
  userid :: UserId

type_synonym EventSource = nat

text \<open>
  The data fields of \<^verbatim>\<open>NetServer\<close>. \<open>clientMux\<close> is \<open>True\<close> while the mutex is held.
  \<open>followers\<close> is \<^verbatim>\<open>map[UserId]map[UserId]bool\<close>; the inner map is only ever written with
  \<^verbatim>\<open>true\<close> and the interface documents it as a set, so it is a set here. Every inner map is
  created by \<^verbatim>\<open>AddFollower\<close> for one key and never shared, so updating it in place is
  updating the entry of the outer map.

  \<open>wrote\<close> is not a field of the Go struct: it records the calls of \<^verbatim>\<open>WriteMessage\<close>, per
  registry key under which the receiving client was found, in the order they were made.
  The order between different keys inside one \<^verbatim>\<open>range\<close> loop is unspecified in Go and is
  not recorded. The configuration fields (ports, buffer size) and the error channel play no
  part in dispatch and are left out.
\<close>

record NetServer =
  clientMux :: bool
  clients :: "UserId \<rightharpoonup> Client"
  source :: "EventSource option"
  followers :: "UserId \<rightharpoonup> UserId set"
  wrote :: "UserId \<Rightarrow> (Client \<times> Message) list"

definition NewNetServer :: NetServer where
  "NewNetServer =
     \<lparr>clientMux = False, clients = Map.empty, source = None, followers = Map.empty,
      wrote = (\<lambda>k. [])\<rparr>"

subsection \<open>Client registry\<close>

text \<open>
  \<^verbatim>\<open>RegisterClient\<close> and \<^verbatim>\<open>UnregisterClient\<close> take \<open>clientMux\<close>. A call that finds the mutex
  held waits for it; the result \<open>None\<close> stands for a call that does not return. The branch
  of \<^verbatim>\<open>RegisterClient\<close> that finds the id present returns before \<^verbatim>\<open>Unlock()\<close>.
\<close>

definition RegisterClient :: "Client \<Rightarrow> NetServer \<Rightarrow> (bool \<times> NetServer) option" where
  "RegisterClient c ns =
     (if clientMux ns then None
      else
        let ns1 = ns\<lparr>clientMux := True\<rparr> in
        (case clients ns1 (userid c) of
           Some old \<Rightarrow> Some (False, ns1)
         | None \<Rightarrow>
             Some (True, ns1\<lparr>clients := (clients ns1)(userid c \<mapsto> c), clientMux := False\<rparr>)))"

definition UnregisterClient :: "Client \<Rightarrow> NetServer \<Rightarrow> (bool \<times> NetServer) option" where
  "UnregisterClient c ns =
     (if clientMux ns then None
      else Some (True, ns\<lparr>clients := (clients ns)(userid c := None)\<rparr>))"

definition GetClient :: "NetServer \<Rightarrow> UserId \<Rightarrow> Client option" where
  "GetClient ns clientId = clients ns clientId"

text \<open>
  \<^verbatim>\<open>RegisterEventSource\<close> also starts \<^verbatim>\<open>readSource\<close> in a goroutine; that loop is modelled
  below on its own.
\<close>

definition RegisterEventSource :: "EventSource \<Rightarrow> NetServer \<Rightarrow> bool \<times> NetServer" where
  "RegisterEventSource es ns =
     (if source ns \<noteq> None then (False, ns) else (True, ns\<lparr>source := Some es\<rparr>))"

definition UnregisterEventSource :: "EventSource \<Rightarrow> NetServer \<Rightarrow> bool \<times> NetServer" where
  "UnregisterEventSource es ns =
     (if source ns = Some es then (True, ns\<lparr>source := None\<rparr>) else (False, ns))"

subsection \<open>Follower graph\<close>

definition AddFollower :: "UserId \<Rightarrow> UserId \<Rightarrow> NetServer \<Rightarrow> NetServer" where
  "AddFollower cid uid ns =
     (let fset = (case followers ns cid of None \<Rightarrow> {} | Some f \<Rightarrow> f)
      in ns\<lparr>followers := (followers ns)(cid \<mapsto> insert uid fset)\<rparr>)"

definition RemoveFollower :: "UserId \<Rightarrow> UserId \<Rightarrow> NetServer \<Rightarrow> NetServer" where
  "RemoveFollower cid uid ns =
     (case followers ns cid of
        None \<Rightarrow> ns
      | Some fset \<Rightarrow>
          let fset' = fset - {uid} in
          if fset' = {} then ns\<lparr>followers := (followers ns)(cid := None)\<rparr>
          else ns\<lparr>followers := (followers ns)(cid \<mapsto> fset')\<rparr>)"

text \<open>\<^verbatim>\<open>GetFollowers\<close> returns the entry of the outer map: Go's nil map when there is none.\<close>

definition GetFollowers :: "NetServer \<Rightarrow> UserId \<Rightarrow> UserId set option" where
  "GetFollowers ns uid = followers ns uid"

text \<open>
  The keys of a map value as Go reads it: a nil map has length 0 and a \<^verbatim>\<open>range\<close> over it
  runs no iteration.
\<close>

definition keys_of :: "UserId set option \<Rightarrow> UserId set" where
  "keys_of m = (case m of None \<Rightarrow> {} | Some f \<Rightarrow> f)"

subsection \<open>Dispatch (serverlib/message.go)\<close>

definition WriteMessage :: "UserId \<Rightarrow> Client \<Rightarrow> Message \<Rightarrow> NetServer \<Rightarrow> NetServer" where
  "WriteMessage k c m ns = ns\<lparr>wrote := (wrote ns)(k := wrote ns k @ [(c, m)])\<rparr>"

text \<open>\<^verbatim>\<open>NetServer.Broadcast\<close>: one \<^verbatim>\<open>WriteMessage\<close> for every entry of \<open>clients\<close>.\<close>

definition NetServer_Broadcast :: "Message \<Rightarrow> NetServer \<Rightarrow> NetServer" where
  "NetServer_Broadcast m ns =
     ns\<lparr>wrote := (\<lambda>k. case clients ns k of
                          None \<Rightarrow> wrote ns k
                        | Some c \<Rightarrow> wrote ns k @ [(c, m)])\<rparr>"

text \<open>
  \<^verbatim>\<open>Dispatch\<close> always returns a nil error, so the model returns the server only. The loop
  of \<^verbatim>\<open>StatusUpdate.Dispatch\<close> over the follower set writes to the client of every follower
  that has one.
\<close>

fun Dispatch :: "Message \<Rightarrow> NetServer \<Rightarrow> NetServer" where
  "Dispatch (Follow q idFrom idTo) ns =
     (let ns1 = AddFollower idTo idFrom ns in
      case GetClient ns1 idTo of
        None \<Rightarrow> ns1
      | Some c \<Rightarrow> WriteMessage idTo c (Follow q idFrom idTo) ns1)"
| "Dispatch (Unfollow q idFrom idTo) ns = RemoveFollower idTo idFrom ns"
| "Dispatch (Broadcast q) ns = NetServer_Broadcast (Broadcast q) ns"
| "Dispatch (StatusUpdate q idFrom) ns =
     (case GetFollowers ns idFrom of
        None \<Rightarrow> ns
      | Some fs \<Rightarrow>
          ns\<lparr>wrote := (\<lambda>uid. if uid \<in> fs
                              then (case GetClient ns uid of
                                      None \<Rightarrow> wrote ns uid
                                    | Some c \<Rightarrow> wrote ns uid @ [(c, StatusUpdate q idFrom)])
                              else wrote ns uid)\<rparr>)"
| "Dispatch (PrivateMessage q idFrom idTo) ns =
     (case GetClient ns idTo of
        None \<Rightarrow> ns
      | Some c \<Rightarrow> WriteMessage idTo c (PrivateMessage q idFrom idTo) ns)"

section \<open>The resequencer (package net, NetServer.readSource)\<close>

text \<open>
  The state of \<^verbatim>\<open>readSource\<close>: its locals \<^verbatim>\<open>current\<close> and \<^verbatim>\<open>cache\<close>, the server it
  dispatches to, and the three \<^verbatim>\<open>expvar\<close> counters of the package. \<open>dispatched\<close> is not a
  variable of the code: it lists the messages whose \<^verbatim>\<open>Dispatch\<close> was called, in call order.
\<close>

record Sequencer =
  current :: SeqId
  cache :: "SeqId \<rightharpoonup> Message"
  server :: NetServer
  dispatched :: "Message list"
  messagesRecieved :: int
  messagesSent :: int
  cacheSize :: int

text \<open>
  The inner loop \<^verbatim>\<open>for ok { ... }\<close>: while the cache holds an entry at \<open>current\<close>, dispatch
  it, delete it and step \<open>current\<close>. Every round removes a key of the cache, and a map on
  64-bit keys is finite, so the loop ends.
\<close>

function pump :: "Sequencer \<Rightarrow> Sequencer" where
  "pump r =
     (case cache r (current r) of
        None \<Rightarrow> r
      | Some m \<Rightarrow>
          pump (r\<lparr>server := Dispatch m (server r),
                  dispatched := dispatched r @ [m],
                  cache := (cache r)(current r := None),
                  messagesSent := messagesSent r + 1,
                  current := current r + 1\<rparr>))"
  by pat_completeness auto
termination
proof (relation "measure (\<lambda>r. card (dom (cache r)))")
  show "wf (measure (\<lambda>r. card (dom (cache r))))"
    by simp
next
  fix r :: Sequencer and m
  assume "cache r (current r) = Some m"
  then have "current r \<in> dom (cache r)"
    by (simp add: domI)
  then have "card (dom (cache r) - {current r}) < card (dom (cache r))"
    by (intro card_Diff1_less finite)
  then show "(r\<lparr>server := Dispatch m (server r), dispatched := dispatched r @ [m],
               cache := (cache r)(current r := None),
               messagesSent := messagesSent r + 1, current := current r + 1\<rparr>, r)
             \<in> measure (\<lambda>r. card (dom (cache r)))"
    by simp
qed

text \<open>The body of the outer loop for a message that is not nil.\<close>

definition admit :: "Message \<Rightarrow> Sequencer \<Rightarrow> Sequencer" where
  "admit msg r0 =
     (let r = r0\<lparr>messagesRecieved := messagesRecieved r0 + 1\<rparr> in
      if Id_msg msg \<noteq> current r then
        (let r1 = r\<lparr>cache := (cache r)(Id_msg msg \<mapsto> msg)\<rparr>
         in r1\<lparr>cacheSize := int (card (dom (cache r1)))\<rparr>)
      else
        (let r1 = pump (r\<lparr>server := Dispatch msg (server r),
                           dispatched := dispatched r @ [msg],
                           messagesSent := messagesSent r + 1,
                           current := current r + 1\<rparr>)
         in r1\<lparr>cacheSize := int (card (dom (cache r1)))\<rparr>))"

text \<open>
  The outer loop runs on what \<^verbatim>\<open>WaitMessage\<close> returns, one pair of a message and an error
  per call. A pair with an error ends the loop after its message, if any, was handled: the
  source is unregistered and \<^verbatim>\<open>readSource\<close> returns. When the pairs supplied so far are
  used up the loop is waiting in \<^verbatim>\<open>WaitMessage\<close>.
\<close>

datatype outcome = Returned Sequencer | Waiting Sequencer

fun state_of :: "outcome \<Rightarrow> Sequencer" where
  "state_of (Returned r) = r"
| "state_of (Waiting r) = r"

fun readSource_loop ::
  "EventSource \<Rightarrow> (Message option \<times> error option) list \<Rightarrow> Sequencer \<Rightarrow> outcome" where
  "readSource_loop src [] r = Waiting r"
| "readSource_loop src ((msg, err) # feed) r =
     (let r1 = (case msg of Some m \<Rightarrow> admit m r | None \<Rightarrow> r) in
      case err of
        Some e \<Rightarrow> Returned (r1\<lparr>server := snd (UnregisterEventSource src (server r1))\<rparr>)
      | None \<Rightarrow> readSource_loop src feed r1)"

text \<open>
  \<^verbatim>\<open>readSource\<close> starts with \<^verbatim>\<open>current\<close> at 1 and an empty cache. The three counters are
  variables of the package that \<^verbatim>\<open>readSource\<close> does not reset; the model starts them at 0,
  their value when the process starts. The loop never reads them: \<open>readSource_loop_same_core\<close>
  below shows that a run from other counter values differs in the counters only.
\<close>

definition readSource_init :: "NetServer \<Rightarrow> Sequencer" where
  "readSource_init srv =
     \<lparr>current = 1, cache = Map.empty, server = srv, dispatched = [],
      messagesRecieved = 0, messagesSent = 0, cacheSize = 0\<rparr>"

definition readSource ::
  "EventSource \<Rightarrow> (Message option \<times> error option) list \<Rightarrow> NetServer \<Rightarrow> outcome" where
  "readSource src feed srv = readSource_loop src feed (readSource_init srv)"


text \<open>
  A feed in which every call of \<^verbatim>\<open>WaitMessage\<close> returns a message and a nil error.
\<close>

definition in_order :: "Message list \<Rightarrow> (Message option \<times> error option) list" where
  "in_order ms = map (\<lambda>m. (Some m, None)) ms"

text \<open>The server after the calls of \<^verbatim>\<open>Dispatch\<close> for a list of messages, in list order.\<close>

definition replay :: "NetServer \<Rightarrow> Message list \<Rightarrow> NetServer" where
  "replay srv ms = foldl (\<lambda>s m. Dispatch m s) srv ms"

subsection \<open>Invariants of the loop\<close>

text \<open>
  \<open>seq_inv R r\<close>: the messages \<open>R\<close> received so far carry distinct sequence numbers; those
  dispatched are numbered 1, 2, ... without a gap, \<open>current\<close> is the next number, and the
  cache holds exactly the received messages whose number is not below \<open>current\<close>.
\<close>

definition seq_inv :: "Message set \<Rightarrow> Sequencer \<Rightarrow> bool" where
  "seq_inv R r \<longleftrightarrow>
     current r = of_nat (Suc (length (dispatched r)))
     \<and> map (\<lambda>m. unat (Id_msg m)) (dispatched r) = [1..<Suc (length (dispatched r))]
     \<and> set (dispatched r) \<subseteq> R
     \<and> (\<forall>q m. cache r q = Some m \<longleftrightarrow> m \<in> R \<and> Id_msg m = q \<and> Suc (length (dispatched r)) \<le> unat q)"

text \<open>
  \<open>ord_inv n r\<close> needs nothing of the feed: the dispatched messages are numbered 1, 2, ...
  without a gap, every cached message sits at its own number, and at most \<open>n\<close> messages are
  held, dispatched or cached.
\<close>

definition ord_inv :: "nat \<Rightarrow> Sequencer \<Rightarrow> bool" where
  "ord_inv n r \<longleftrightarrow>
     current r = of_nat (Suc (length (dispatched r)))
     \<and> map (\<lambda>m. unat (Id_msg m)) (dispatched r) = [1..<Suc (length (dispatched r))]
     \<and> (\<forall>q m. cache r q = Some m \<longrightarrow> Id_msg m = q)
     \<and> length (dispatched r) + card (dom (cache r)) \<le> n"

text \<open>
  \<open>no_stale feed r\<close>: along the run of the loop from \<open>r\<close> over \<open>feed\<close>, no message arrives
  with a number below the value \<open>current\<close> has at its arrival.
\<close>

fun no_stale :: "(Message option \<times> error option) list \<Rightarrow> Sequencer \<Rightarrow> bool" where
  "no_stale [] r = True"
| "no_stale ((msg, err) # feed) r =
     ((case msg of None \<Rightarrow> True | Some m \<Rightarrow> \<not> Id_msg m < current r)
      \<and> (case err of
            Some e \<Rightarrow> True
          | None \<Rightarrow> no_stale feed (case msg of Some m \<Rightarrow> admit m r | None \<Rightarrow> r)))"

text \<open>Two states of the loop that differ in the counters at most.\<close>

definition same_core :: "Sequencer \<Rightarrow> Sequencer \<Rightarrow> bool" where
  "same_core r r' \<longleftrightarrow>
     current r = current r' \<and> cache r = cache r' \<and> server r = server r'
     \<and> dispatched r = dispatched r'"

section \<open>What the specification calls a malformed message\<close>

text \<open>
  A field is a valid sequence number when it is a decimal numeral, digits only, of a value
  that fits 64 bits without sign; it is a valid user id when it is a decimal numeral with
  at most one sign in front, of a value that fits 64 bits with sign.
\<close>

definition is_digit :: "char \<Rightarrow> bool" where
  "is_digit c \<longleftrightarrow> 48 \<le> (of_char c :: nat) \<and> (of_char c :: nat) \<le> 57"

definition dec_from :: "nat \<Rightarrow> string \<Rightarrow> nat" where
  "dec_from n s = foldl (\<lambda>a c. a * 10 + (of_char c - 48)) n s"

definition dec_val :: "string \<Rightarrow> nat" where
  "dec_val s = dec_from 0 s"

definition valid_seq :: "string \<Rightarrow> bool" where
  "valid_seq s \<longleftrightarrow> s \<noteq> [] \<and> list_all is_digit s \<and> dec_val s < 2 ^ 64"

definition valid_user_id :: "string \<Rightarrow> bool" where
  "valid_user_id s \<longleftrightarrow>
     (case s of
        [] \<Rightarrow> False
      | c # ds \<Rightarrow>
          if c = CHR ''-'' then ds \<noteq> [] \<and> list_all is_digit ds \<and> dec_val ds \<le> 2 ^ 63
          else if c = CHR ''+'' then ds \<noteq> [] \<and> list_all is_digit ds \<and> dec_val ds < 2 ^ 63
          else list_all is_digit s \<and> dec_val s < 2 ^ 63)"

definition user_id_val :: "string \<Rightarrow> int" where
  "user_id_val s =
     (case s of
        [] \<Rightarrow> 0
      | c # ds \<Rightarrow>
          if c = CHR ''-'' then - int (dec_val ds)
          else if c = CHR ''+'' then int (dec_val ds)
          else int (dec_val s))"

text \<open>
  The kind tags and their numbers of arguments: 0 for \<open>B\<close>, 1 for \<open>S\<close>, 2 for \<open>F\<close>, \<open>U\<close>
  and \<open>P\<close>.
\<close>

definition recognized :: "string \<Rightarrow> bool" where
  "recognized tag \<longleftrightarrow> tag \<in> set [''F'', ''U'', ''B'', ''P'', ''S'']"

definition arity :: "string \<Rightarrow> nat" where
  "arity tag = (if tag = ''B'' then 0 else if tag = ''S'' then 1 else 2)"

text \<open>
  The five ways of the specification for a line to be malformed, on its fields: fewer than
  two fields, a sequence number that is not valid, an argument that is not a valid user id,
  a tag that is not known, a number of arguments that is not the tag's.
\<close>

definition MalformedMessage :: "string list \<Rightarrow> bool" where
  "MalformedMessage fs \<longleftrightarrow>
     length fs < 2
     \<or> \<not> valid_seq (fs ! 0)
     \<or> \<not> list_all valid_user_id (drop 2 fs)
     \<or> \<not> recognized (fs ! 1)
     \<or> length (drop 2 fs) \<noteq> arity (fs ! 1)"

text \<open>The fields of a line: what \<^verbatim>\<open>ParseMessage\<close> splits after trimming.\<close>

definition fields_of :: "string \<Rightarrow> string list" where
  "fields_of line = Split (TrimSpace line) ''|''"

text \<open>Fields joined by the separator, and the first and last bytes of white space.\<close>

fun join_bar :: "string list \<Rightarrow> string" where
  "join_bar [] = []"
| "join_bar [x] = x"
| "join_bar (x # y # ys) = x @ CHR ''|'' # join_bar (y # ys)"

definition space_first :: "nat set" where
  "space_first = {9, 10, 11, 12, 13, 32, 194, 225, 226, 227}"

definition space_last :: "nat set" where
  "space_last = {9, 10, 11, 12, 13, 32, 133, 160, 128, 129, 130, 131, 132, 134, 135, 136, 137,
     138, 168, 169, 175, 159}"

section \<open>Concrete servers and clients used in the examples\<close>

definition graph1 :: NetServer where
  "graph1 = NewNetServer\<lparr>followers := [2 \<mapsto> {1}]\<rparr>"

definition clientA :: Client where
  "clientA = \<lparr>conn = 1, userid = 10\<rparr>"

definition srvA :: NetServer where
  "srvA = NewNetServer\<lparr>clients := [10 \<mapsto> clientA]\<rparr>"

definition sink1 :: Client where
  "sink1 = \<lparr>conn = 1, userid = 7\<rparr>"

definition sink2 :: Client where
  "sink2 = \<lparr>conn = 2, userid = 7\<rparr>"

definition sink3 :: Client where
  "sink3 = \<lparr>conn = 3, userid = 8\<rparr>"

definition reg1 :: NetServer where
  "reg1 = NewNetServer\<lparr>clients := [7 \<mapsto> sink1]\<rparr>"

definition clientX :: Client where
  "clientX = \<lparr>conn = 11, userid = 1\<rparr>"

definition clientY :: Client where
  "clientY = \<lparr>conn = 12, userid = 2\<rparr>"

definition srvXY :: NetServer where
  "srvXY = NewNetServer\<lparr>clients := [1 \<mapsto> clientX, 2 \<mapsto> clientY]\<rparr>"

definition feed213 :: "Message list" where
  "feed213 = [Broadcast 2, Broadcast 1, Broadcast 3]"

definition after1 :: Sequencer where
  "after1 = state_of (readSource 0 (in_order [Broadcast 1]) NewNetServer)"

definition after11 :: Sequencer where
  "after11 = state_of (readSource 0 (in_order [Broadcast 1, Broadcast 1]) NewNetServer)"

definition after2 :: Sequencer where
  "after2 = state_of (readSource 0 (in_order [Broadcast 2]) NewNetServer)"

definition after32 :: Sequencer where
  "after32 = state_of (readSource 0 (in_order [Broadcast 3, Broadcast 2]) NewNetServer)"

declare Dispatch.simps [simp del]
declare pump.simps [simp del]
declare Split.simps [simp del]
declare trim_left.simps [simp del]
declare fmt_uint.simps [simp del]

section \<open>Follower graph: idempotence and frame\<close>

lemma AddFollower_followers:
  "followers (AddFollower cid uid ns) =
     (followers ns)(cid \<mapsto> insert uid (keys_of (followers ns cid)))"
  by (simp add: AddFollower_def keys_of_def)

lemma RemoveFollower_followers:
  "followers (RemoveFollower cid uid ns) k =
     (if k = cid
      then (case followers ns cid of
              None \<Rightarrow> None
            | Some fset \<Rightarrow> if fset - {uid} = {} then None else Some (fset - {uid}))
      else followers ns k)"
  by (simp add: RemoveFollower_def Let_def split: option.splits)

lemma keys_of_RemoveFollower:
  "keys_of (followers (RemoveFollower cid uid ns) k) =
     (if k = cid then keys_of (followers ns k) - {uid} else keys_of (followers ns k))"
  by (simp add: RemoveFollower_followers keys_of_def split: option.splits)

lemma AddFollower_twice: "AddFollower b a (AddFollower b a ns) = AddFollower b a ns"
  by (simp add: AddFollower_def)

lemma RemoveFollower_twice:
  "RemoveFollower b a (RemoveFollower b a ns) = RemoveFollower b a ns"
  by (auto simp: RemoveFollower_def Let_def split: option.splits)

lemma RemoveFollower_absent:
  "a \<notin> keys_of (followers ns b) \<Longrightarrow> followers ns b \<noteq> Some {} \<Longrightarrow> RemoveFollower b a ns = ns"
  by (cases "followers ns b") (simp_all add: RemoveFollower_def Let_def keys_of_def map_upd_triv)

text \<open>
  Claim C8. Adding the follower \<open>a\<close> of \<open>b\<close> twice gives the server that adding it once
  gives, and so does removing it twice. Removing an edge that is absent leaves the follower
  set of every followee as it was, and leaves the whole server as it was unless the entry of
  \<open>b\<close> was an empty set, which is then dropped. After a removal the entry of \<open>b\<close> is never
  an empty set.
\<close>

theorem follower_ops_idempotent:
  "AddFollower b a (AddFollower b a ns) = AddFollower b a ns
   \<and> RemoveFollower b a (RemoveFollower b a ns) = RemoveFollower b a ns
   \<and> (a \<notin> keys_of (GetFollowers ns b) \<longrightarrow>
        (\<forall>k. keys_of (GetFollowers (RemoveFollower b a ns) k) = keys_of (GetFollowers ns k))
        \<and> (GetFollowers ns b \<noteq> Some {} \<longrightarrow> RemoveFollower b a ns = ns))
   \<and> GetFollowers (RemoveFollower b a ns) b \<noteq> Some {}"
  by (auto simp: AddFollower_twice RemoveFollower_twice RemoveFollower_absent GetFollowers_def
      keys_of_RemoveFollower RemoveFollower_followers keys_of_def split: option.splits)

theorem follower_ops_idempotent_witness:
  "3 \<notin> keys_of (GetFollowers graph1 2) \<and> GetFollowers graph1 2 \<noteq> Some {}
   \<and> RemoveFollower 2 3 graph1 = graph1
   \<and> AddFollower 2 3 (AddFollower 2 3 graph1) = AddFollower 2 3 graph1
   \<and> keys_of (GetFollowers (AddFollower 2 3 graph1) 2) = {1, 3}"
  using follower_ops_idempotent [where a = 3 and b = 2 and ns = graph1]
  by (simp add: graph1_def NewNetServer_def GetFollowers_def keys_of_def AddFollower_def insert_commute)

text \<open>
  Claim C10. \<^verbatim>\<open>AddFollower(f, u)\<close> and \<^verbatim>\<open>RemoveFollower(f, u)\<close> leave the entry of every
  followee other than \<open>f\<close> as it was.
\<close>

theorem follower_ops_frame:
  "k \<noteq> f \<Longrightarrow>
     GetFollowers (AddFollower f u ns) k = GetFollowers ns k
     \<and> GetFollowers (RemoveFollower f u ns) k = GetFollowers ns k"
  by (simp add: GetFollowers_def AddFollower_followers RemoveFollower_followers)

theorem follower_ops_frame_witness:
  "(1::UserId) \<noteq> 2
   \<and> GetFollowers (AddFollower 2 3 graph1) 1 = None
   \<and> GetFollowers (RemoveFollower 1 3 graph1) 2 = Some {1}"
  using follower_ops_frame [of 1 2 3 graph1] follower_ops_frame [of 2 1 3 graph1]
  by (simp add: graph1_def NewNetServer_def GetFollowers_def)

text \<open>
  Claim C9. For a followee with no entry in the follower graph \<^verbatim>\<open>GetFollowers\<close> returns the
  nil map, which has no keys, and dispatching a status update of that user changes nothing:
  no client is written to.
\<close>

theorem unknown_followee_no_delivery:
  "followers ns u = None \<Longrightarrow>
     GetFollowers ns u = None \<and> keys_of (GetFollowers ns u) = {}
     \<and> Dispatch (StatusUpdate q u) ns = ns"
  by (simp add: Dispatch.simps GetFollowers_def keys_of_def)

theorem unknown_followee_no_delivery_witness:
  "followers graph1 5 = None \<and> keys_of (GetFollowers graph1 5) = {}
   \<and> wrote (Dispatch (StatusUpdate 9 5) graph1) = wrote graph1"
  using unknown_followee_no_delivery [of graph1 5 9]
  by (simp add: graph1_def NewNetServer_def GetFollowers_def keys_of_def)

section \<open>Dispatch: status updates read the graph of their own moment\<close>

lemma Dispatch_clients: "clients (Dispatch m ns) = clients ns"
  by (cases m)
     (simp_all add: Dispatch.simps AddFollower_def RemoveFollower_def WriteMessage_def
        NetServer_Broadcast_def GetClient_def GetFollowers_def Let_def split: option.splits)

lemma Dispatch_keeps_edge:
  assumes "a \<in> keys_of (followers ns b)" and "\<forall>q. m \<noteq> Unfollow q a b"
  shows "a \<in> keys_of (followers (Dispatch m ns) b)"
  using assms
  by (cases m)
     (auto simp: Dispatch.simps AddFollower_def RemoveFollower_def WriteMessage_def
        NetServer_Broadcast_def GetClient_def GetFollowers_def Let_def keys_of_def
        split: option.splits)

lemma Dispatch_Follow_edge: "a \<in> keys_of (followers (Dispatch (Follow q a b) ns) b)"
  by (simp add: Dispatch.simps AddFollower_def WriteMessage_def GetClient_def Let_def keys_of_def
      split: option.splits)

lemma Dispatch_Unfollow_edge: "a \<notin> keys_of (followers (Dispatch (Unfollow q a b) ns) b)"
  by (simp add: Dispatch.simps keys_of_RemoveFollower)

lemma Dispatch_StatusUpdate_wrote:
  "wrote (Dispatch (StatusUpdate q b) ns) a =
     (if a \<in> keys_of (followers ns b)
      then (case clients ns a of
              None \<Rightarrow> wrote ns a
            | Some c \<Rightarrow> wrote ns a @ [(c, StatusUpdate q b)])
      else wrote ns a)"
  by (simp add: Dispatch.simps GetFollowers_def GetClient_def keys_of_def split: option.splits)

text \<open>
  Claim C2. Let a client \<open>c\<close> be registered for \<open>a\<close>. After \<^verbatim>\<open>Follow(a, b)\<close> was dispatched,
  then any message that is not \<^verbatim>\<open>Unfollow(a, b)\<close>, the dispatch of \<^verbatim>\<open>StatusUpdate(b)\<close>
  writes the update to \<open>c\<close>. When the message in between is \<^verbatim>\<open>Unfollow(a, b)\<close>, the dispatch
  of the update writes nothing to the client of \<open>a\<close>. The sequence numbers may be any, 3, 4
  and 5 among them.
\<close>

theorem status_update_snapshot:
  assumes "GetClient ns a = Some c"
  shows "(\<forall>m4. (\<forall>q. m4 \<noteq> Unfollow q a b) \<longrightarrow>
            wrote (Dispatch (StatusUpdate q5 b) (Dispatch m4 (Dispatch (Follow q3 a b) ns))) a
              = wrote (Dispatch m4 (Dispatch (Follow q3 a b) ns)) a @ [(c, StatusUpdate q5 b)])
         \<and> wrote (Dispatch (StatusUpdate q5 b)
                    (Dispatch (Unfollow q4 a b) (Dispatch (Follow q3 a b) ns))) a
              = wrote (Dispatch (Unfollow q4 a b) (Dispatch (Follow q3 a b) ns)) a"
proof (intro conjI allI impI)
  fix m4 assume m4: "\<forall>q. m4 \<noteq> Unfollow q a b"
  let ?s = "Dispatch m4 (Dispatch (Follow q3 a b) ns)"
  have "a \<in> keys_of (followers ?s b)"
    using Dispatch_keeps_edge [OF Dispatch_Follow_edge m4] .
  moreover have "clients ?s a = Some c"
    using assms by (simp add: Dispatch_clients GetClient_def)
  ultimately show "wrote (Dispatch (StatusUpdate q5 b) ?s) a = wrote ?s a @ [(c, StatusUpdate q5 b)]"
    by (simp add: Dispatch_StatusUpdate_wrote)
next
  show "wrote (Dispatch (StatusUpdate q5 b)
                (Dispatch (Unfollow q4 a b) (Dispatch (Follow q3 a b) ns))) a
          = wrote (Dispatch (Unfollow q4 a b) (Dispatch (Follow q3 a b) ns)) a"
    using Dispatch_Unfollow_edge [of a q4 b "Dispatch (Follow q3 a b) ns"]
    by (simp only: Dispatch_StatusUpdate_wrote if_False)
qed

theorem status_update_snapshot_witness:
  "GetClient srvA 10 = Some clientA
   \<and> wrote (Dispatch (StatusUpdate 5 20) (Dispatch (Broadcast 4) (Dispatch (Follow 3 10 20) srvA))) 10
       = [(clientA, Broadcast 4), (clientA, StatusUpdate 5 20)]
   \<and> wrote (Dispatch (StatusUpdate 5 20) (Dispatch (Unfollow 4 10 20) (Dispatch (Follow 3 10 20) srvA))) 10
       = []"
proof -
  have c: "GetClient srvA 10 = Some clientA"
    by (simp add: srvA_def GetClient_def NewNetServer_def)
  have w4: "wrote (Dispatch (Broadcast 4) (Dispatch (Follow 3 10 20) srvA)) 10
              = [(clientA, Broadcast 4)]"
    by (simp add: Dispatch.simps srvA_def NewNetServer_def AddFollower_def GetClient_def
        NetServer_Broadcast_def WriteMessage_def)
  have u4: "wrote (Dispatch (Unfollow 4 10 20) (Dispatch (Follow 3 10 20) srvA)) 10 = []"
    by (simp add: Dispatch.simps srvA_def NewNetServer_def AddFollower_def GetClient_def
        RemoveFollower_def WriteMessage_def)
  from status_update_snapshot [OF c, of 20 5 3 4] w4 u4 c show ?thesis
    by simp
qed

section \<open>Client registry\<close>

lemma RegisterClient_present:
  "\<not> clientMux ns \<Longrightarrow> clients ns (userid c) = Some old \<Longrightarrow>
     RegisterClient c ns = Some (False, ns\<lparr>clientMux := True\<rparr>)"
  by (simp add: RegisterClient_def)

lemma RegisterClient_absent:
  "\<not> clientMux ns \<Longrightarrow> clients ns (userid c) = None \<Longrightarrow>
     RegisterClient c ns = Some (True, ns\<lparr>clients := (clients ns)(userid c \<mapsto> c)\<rparr>)"
  by (simp add: RegisterClient_def)

lemma RegisterClient_held: "clientMux ns \<Longrightarrow> RegisterClient c ns = None"
  by (simp add: RegisterClient_def)

text \<open>
  Claim C7. On the registry that holds \<open>sink1\<close> for user 7, registering \<open>sink2\<close> for user 7
  returns false and leaves \<open>sink1\<close> in the map, but it keeps the mutex: the server it leaves
  is not the one it found. From there a registration never returns, neither one for user 7,
  which should return false, nor one for the free id 8, which should store the sink and
  return true, and neither does \<^verbatim>\<open>UnregisterClient\<close>.
\<close>

theorem RegisterClient_duplicate_keeps_mutex:
  "RegisterClient sink1 NewNetServer = Some (True, reg1)
   \<and> RegisterClient sink2 reg1 = Some (False, reg1\<lparr>clientMux := True\<rparr>)
   \<and> RegisterClient sink2 (reg1\<lparr>clientMux := True\<rparr>) = None
   \<and> RegisterClient sink3 (reg1\<lparr>clientMux := True\<rparr>) = None
   \<and> UnregisterClient sink1 (reg1\<lparr>clientMux := True\<rparr>) = None"
  by (simp add: RegisterClient_def UnregisterClient_def reg1_def NewNetServer_def sink1_def
      sink2_def sink3_def)

section \<open>The resequencer: order of dispatch\<close>

subsection \<open>A permutation of 1 to N comes out in order\<close>

lemma pump_no_ready: "cache (pump r) (current (pump r)) = None"
proof (induction r rule: pump.induct)
  case (1 r)
  show ?case
  proof (cases "cache r (current r)")
    case None
    then show ?thesis by (simp add: pump.simps)
  next
    case (Some m)
    with 1 show ?thesis by (subst (1 2) pump.simps) simp
  qed
qed

lemma unat_of_nat64: "n < 2 ^ 64 \<Longrightarrow> unat (of_nat n :: 64 word) = n"
  by (simp add: unat_of_nat)

lemma pump_seq_inv: "seq_inv R r \<Longrightarrow> seq_inv R (pump r)"
proof (induction r rule: pump.induct)
  case (1 r)
  let ?k = "Suc (length (dispatched r))"
  show ?case
  proof (cases "cache r (current r)")
    case None
    then show ?thesis using "1.prems" by (simp add: pump.simps)
  next
    case (Some m)
    let ?r' = "r\<lparr>server := Dispatch m (server r), dispatched := dispatched r @ [m],
                  cache := (cache r)(current r := None),
                  messagesSent := messagesSent r + 1, current := current r + 1\<rparr>"
    from "1.prems" have cur: "current r = of_nat ?k"
      and ids: "map (\<lambda>m. unat (Id_msg m)) (dispatched r) = [1..<?k]"
      and sub: "set (dispatched r) \<subseteq> R"
      and ch: "\<And>q m. cache r q = Some m \<longleftrightarrow> m \<in> R \<and> Id_msg m = q \<and> ?k \<le> unat q"
      by (simp_all add: seq_inv_def)
    from Some ch have mR: "m \<in> R" and idm: "Id_msg m = current r" and le: "?k \<le> unat (current r)"
      by blast+
    have "unat (current r) < 2 ^ 64"
      using unsigned_less [of "current r", where ?'a = nat] by simp
    with le have k64: "?k < 2 ^ 64" by simp
    then have uk: "unat (current r) = ?k"
      by (simp only: cur unat_of_nat64)
    have "seq_inv R ?r'"
      unfolding seq_inv_def
    proof (intro conjI allI)
      show "current ?r' = of_nat (Suc (length (dispatched ?r')))"
        by (simp add: cur)
      show "map (\<lambda>m. unat (Id_msg m)) (dispatched ?r') = [1..<Suc (length (dispatched ?r'))]"
        using ids by (simp add: idm uk)
      show "set (dispatched ?r') \<subseteq> R"
        using sub mR by simp
      fix q m'
      show "cache ?r' q = Some m' \<longleftrightarrow>
              m' \<in> R \<and> Id_msg m' = q \<and> Suc (length (dispatched ?r')) \<le> unat q"
      proof (cases "q = current r")
        case True
        then show ?thesis by (simp add: uk)
      next
        case False
        then have "unat q \<noteq> ?k"
          using uk by (simp add: word_unat_eq_iff)
        with False show ?thesis
          using ch [of q m'] by auto
      qed
    qed
    then have "seq_inv R (pump ?r')"
      using "1.IH" [OF Some] by simp
    then show ?thesis
      using Some by (subst pump.simps) simp
  qed
qed

lemma seq_inv_fields:
  "current r' = current r \<Longrightarrow> dispatched r' = dispatched r \<Longrightarrow> cache r' = cache r \<Longrightarrow>
     seq_inv R r' = seq_inv R r"
  by (simp add: seq_inv_def)

lemma admit_no_ready:
  "cache r (current r) = None \<Longrightarrow> cache (admit m r) (current (admit m r)) = None"
  by (simp add: admit_def Let_def pump_no_ready)

lemma seq_inv_buffer:
  assumes inv: "seq_inv R r" and fresh: "Id_msg m \<notin> Id_msg ` R" and nz: "Id_msg m \<noteq> 0"
    and ne: "Id_msg m \<noteq> current r"
  shows "seq_inv (insert m R) (r\<lparr>cache := (cache r)(Id_msg m \<mapsto> m)\<rparr>)"
proof -
  let ?k = "Suc (length (dispatched r))"
  from inv have cur: "current r = of_nat ?k"
    and ids: "map (\<lambda>m. unat (Id_msg m)) (dispatched r) = [1..<?k]"
    and sub: "set (dispatched r) \<subseteq> R"
    and ch: "\<And>q m. cache r q = Some m \<longleftrightarrow> m \<in> R \<and> Id_msg m = q \<and> ?k \<le> unat q"
    by (simp_all add: seq_inv_def)
  have "unat (Id_msg m) \<noteq> ?k"
  proof
    assume "unat (Id_msg m) = ?k"
    then have "of_nat (unat (Id_msg m)) = (of_nat ?k :: 64 word)" by simp
    then show False using ne cur by simp
  qed
  moreover have "\<not> unat (Id_msg m) < ?k"
  proof
    assume lt: "unat (Id_msg m) < ?k"
    have "unat (Id_msg m) \<noteq> 0" using nz by (simp add: unat_eq_0)
    with lt have "1 \<le> unat (Id_msg m) \<and> unat (Id_msg m) < ?k" by simp
    then have "unat (Id_msg m) \<in> set [1..<?k]" by (simp only: set_upt atLeastLessThan_iff)
    then have "unat (Id_msg m) \<in> set (map (\<lambda>m. unat (Id_msg m)) (dispatched r))"
      by (simp only: ids)
    then obtain m' where "m' \<in> set (dispatched r)" and "unat (Id_msg m') = unat (Id_msg m)"
      by auto
    then have "m' \<in> R" and "Id_msg m' = Id_msg m"
      using sub by (auto simp: word_unat_eq_iff)
    then have "Id_msg m \<in> Id_msg ` R" by (metis imageI)
    then show False using fresh by simp
  qed
  ultimately have gt: "?k \<le> unat (Id_msg m)" by simp
  show ?thesis
    unfolding seq_inv_def
  proof (intro conjI allI)
    let ?r' = "r\<lparr>cache := (cache r)(Id_msg m \<mapsto> m)\<rparr>"
    show "current ?r' = of_nat (Suc (length (dispatched ?r')))" by (simp add: cur)
    show "map (\<lambda>m. unat (Id_msg m)) (dispatched ?r') = [1..<Suc (length (dispatched ?r'))]"
      using ids by simp
    show "set (dispatched ?r') \<subseteq> insert m R" using sub by auto
    fix q m'
    show "cache ?r' q = Some m' \<longleftrightarrow>
            m' \<in> insert m R \<and> Id_msg m' = q \<and> Suc (length (dispatched ?r')) \<le> unat q"
    proof (cases "q = Id_msg m")
      case True
      have "m' \<in> R \<Longrightarrow> Id_msg m' \<noteq> Id_msg m" for m'
        using fresh by (metis imageI)
      with True show ?thesis using gt by auto
    next
      case False
      then show ?thesis using ch [of q m'] by auto
    qed
  qed
qed

lemma seq_inv_ready:
  assumes inv: "seq_inv R r" and nr: "cache r (current r) = None" and nz: "Id_msg m \<noteq> 0"
    and eq: "Id_msg m = current r"
  shows "seq_inv (insert m R)
           (r\<lparr>server := Dispatch m (server r), dispatched := dispatched r @ [m],
              messagesSent := messagesSent r + 1, current := current r + 1\<rparr>)"
proof -
  let ?k = "Suc (length (dispatched r))"
  let ?r' = "r\<lparr>server := Dispatch m (server r), dispatched := dispatched r @ [m],
              messagesSent := messagesSent r + 1, current := current r + 1\<rparr>"
  from inv have cur: "current r = of_nat ?k"
    and ids: "map (\<lambda>m. unat (Id_msg m)) (dispatched r) = [1..<?k]"
    and sub: "set (dispatched r) \<subseteq> R"
    and ch: "\<And>q m. cache r q = Some m \<longleftrightarrow> m \<in> R \<and> Id_msg m = q \<and> ?k \<le> unat q"
    by (simp_all add: seq_inv_def)
  have len: "length (dispatched r) < 2 ^ 64"
  proof (cases "dispatched r = []")
    case True
    then show ?thesis by simp
  next
    case False
    then have "1 \<le> length (dispatched r) \<and> length (dispatched r) < ?k"
      by (simp add: Suc_le_eq)
    then have "length (dispatched r) \<in> set [1..<?k]" by (simp only: set_upt atLeastLessThan_iff)
    then have "length (dispatched r) \<in> set (map (\<lambda>m. unat (Id_msg m)) (dispatched r))"
      by (simp only: ids)
    then obtain m' where "unat (Id_msg m') = length (dispatched r)" by auto
    then show ?thesis
      using unsigned_less [of "Id_msg m'", where ?'a = nat] by simp
  qed
  have "?k \<noteq> 2 ^ 64"
  proof
    assume "?k = 2 ^ 64"
    then have "(of_nat ?k :: 64 word) = of_nat (2 ^ 64)" by simp
    then have "current r = 0" by (simp add: cur)
    then show False using nz eq by simp
  qed
  with len have k64: "?k < 2 ^ 64" by simp
  have uk: "unat (current r) = ?k"
    using k64 by (simp only: cur unat_of_nat64)
  show ?thesis
    unfolding seq_inv_def
  proof (intro conjI allI)
    show "current ?r' = of_nat (Suc (length (dispatched ?r')))" by (simp add: cur)
    show "map (\<lambda>m. unat (Id_msg m)) (dispatched ?r') = [1..<Suc (length (dispatched ?r'))]"
      using ids by (simp add: eq uk)
    show "set (dispatched ?r') \<subseteq> insert m R" using sub by auto
    fix q m'
    show "cache ?r' q = Some m' \<longleftrightarrow>
            m' \<in> insert m R \<and> Id_msg m' = q \<and> Suc (length (dispatched ?r')) \<le> unat q"
    proof (cases "q = current r")
      case True
      then show ?thesis using nr by (simp add: uk)
    next
      case False
      then have "unat q \<noteq> ?k" using uk by (simp add: word_unat_eq_iff)
      with False show ?thesis using ch [of q m'] eq by auto
    qed
  qed
qed

lemma admit_seq_inv:
  assumes inv: "seq_inv R r" and nr: "cache r (current r) = None"
    and fresh: "Id_msg m \<notin> Id_msg ` R" and nz: "Id_msg m \<noteq> 0"
  shows "seq_inv (insert m R) (admit m r)"
proof (cases "Id_msg m = current r")
  case False
  have "seq_inv (insert m R) (r\<lparr>cache := (cache r)(Id_msg m \<mapsto> m)\<rparr>)"
    using seq_inv_buffer [OF inv fresh nz False] .
  moreover have "seq_inv (insert m R) (admit m r)
                  = seq_inv (insert m R) (r\<lparr>cache := (cache r)(Id_msg m \<mapsto> m)\<rparr>)"
    using False by (intro seq_inv_fields) (simp_all add: admit_def Let_def)
  ultimately show ?thesis by simp
next
  case True
  let ?r1 = "r\<lparr>server := Dispatch m (server r), dispatched := dispatched r @ [m],
               messagesSent := messagesSent r + 1, current := current r + 1\<rparr>"
  let ?r0 = "r\<lparr>messagesRecieved := messagesRecieved r + 1\<rparr>"
  let ?r2 = "?r0\<lparr>server := Dispatch m (server ?r0), dispatched := dispatched ?r0 @ [m],
               messagesSent := messagesSent ?r0 + 1, current := current ?r0 + 1\<rparr>"
  have "seq_inv (insert m R) ?r1"
    using seq_inv_ready [OF inv nr nz True] .
  moreover have "seq_inv (insert m R) ?r2 = seq_inv (insert m R) ?r1"
    by (intro seq_inv_fields) simp_all
  ultimately have "seq_inv (insert m R) (pump ?r2)"
    using pump_seq_inv by blast
  moreover have "seq_inv (insert m R) (admit m r) = seq_inv (insert m R) (pump ?r2)"
    using True by (intro seq_inv_fields) (simp_all add: admit_def Let_def)
  ultimately show ?thesis by simp
qed

lemma pump_replay:
  "server r = replay srv (dispatched r) \<Longrightarrow> server (pump r) = replay srv (dispatched (pump r))"
proof (induction r rule: pump.induct)
  case (1 r)
  show ?case
  proof (cases "cache r (current r)")
    case None
    then show ?thesis using "1.prems" by (simp add: pump.simps)
  next
    case (Some m)
    then show ?thesis
      using "1.IH" [OF Some] "1.prems" by (subst (1 2) pump.simps) (simp add: replay_def)
  qed
qed

lemma admit_replay:
  "server r = replay srv (dispatched r) \<Longrightarrow> server (admit m r) = replay srv (dispatched (admit m r))"
  by (simp add: admit_def Let_def pump_replay replay_def)

lemma feed_seq_inv:
  assumes "seq_inv R r" and "cache r (current r) = None" and "distinct (map Id_msg ms)"
    and "Id_msg ` set ms \<inter> Id_msg ` R = {}" and "0 \<notin> Id_msg ` set ms"
    and "server r = replay srv (dispatched r)"
  shows "\<exists>r'. readSource_loop src (in_order ms) r = Waiting r' \<and> seq_inv (R \<union> set ms) r'
           \<and> cache r' (current r') = None \<and> server r' = replay srv (dispatched r')"
  using assms
proof (induction ms arbitrary: r R)
  case Nil
  then show ?case by (simp add: in_order_def)
next
  case (Cons m ms)
  have fresh: "Id_msg m \<notin> Id_msg ` R" and nz: "Id_msg m \<noteq> 0"
    using Cons.prems(4,5) by auto
  have 1: "seq_inv (insert m R) (admit m r)"
    using admit_seq_inv [OF Cons.prems(1,2) fresh nz] .
  have 2: "cache (admit m r) (current (admit m r)) = None"
    using admit_no_ready [OF Cons.prems(2)] .
  have 3: "distinct (map Id_msg ms)"
    using Cons.prems(3) by simp
  have 4: "Id_msg ` set ms \<inter> Id_msg ` insert m R = {}"
    using Cons.prems(3,4) by auto
  have 5: "0 \<notin> Id_msg ` set ms"
    using Cons.prems(5) by auto
  have 6: "server (admit m r) = replay srv (dispatched (admit m r))"
    using admit_replay [OF Cons.prems(6)] .
  from Cons.IH [OF 1 2 3 4 5 6] show ?case
    by (simp add: in_order_def)
qed

lemma init_seq_inv: "seq_inv {} (readSource_init srv)"
  by (simp add: seq_inv_def readSource_init_def)

text \<open>
  Claim C1. Let the messages \<open>ms\<close> carry the sequence numbers 1 to \<open>N\<close>, each once, in any
  order, and let every call of \<^verbatim>\<open>WaitMessage\<close> deliver the next of them with a nil error.
  Then \<^verbatim>\<open>readSource\<close> has handled all of them and waits for more; the messages it
  dispatched are numbered 1, 2, ..., \<open>N\<close> in this order, they are the messages of \<open>ms\<close>,
  the cache is empty, and the server is the one that dispatching them in this order gives.
\<close>

theorem resequencer_order:
  assumes dist: "distinct (map Id_msg ms)"
    and perm: "(\<lambda>m. unat (Id_msg m)) ` set ms = {1..N}"
  shows "\<exists>r. readSource src (in_order ms) srv = Waiting r
           \<and> map (\<lambda>m. unat (Id_msg m)) (dispatched r) = [1..<Suc N]
           \<and> set (dispatched r) = set ms
           \<and> cache r = Map.empty
           \<and> server r = replay srv (dispatched r)"
proof -
  have nz: "0 \<notin> Id_msg ` set ms"
  proof
    assume "0 \<in> Id_msg ` set ms"
    then obtain m where "m \<in> set ms" and "Id_msg m = 0" by auto
    then have "0 \<in> (\<lambda>m. unat (Id_msg m)) ` set ms" by force
    then show False by (simp add: perm)
  qed
  have "\<exists>r'. readSource_loop src (in_order ms) (readSource_init srv) = Waiting r'
          \<and> seq_inv ({} \<union> set ms) r' \<and> cache r' (current r') = None
          \<and> server r' = replay srv (dispatched r')"
    by (rule feed_seq_inv [OF init_seq_inv _ dist _ nz])
       (simp_all add: readSource_init_def replay_def)
  then obtain r where run: "readSource src (in_order ms) srv = Waiting r"
    and inv: "seq_inv (set ms) r" and nr: "cache r (current r) = None"
    and rep: "server r = replay srv (dispatched r)"
    by (auto simp: readSource_def)
  let ?k = "Suc (length (dispatched r))"
  let ?u = "\<lambda>m. unat (Id_msg m)"
  from inv have cur: "current r = of_nat ?k"
    and ids: "map ?u (dispatched r) = [1..<?k]"
    and sub: "set (dispatched r) \<subseteq> set ms"
    and ch: "\<And>q m. cache r q = Some m \<longleftrightarrow> m \<in> set ms \<and> Id_msg m = q \<and> ?k \<le> unat q"
    by (simp_all add: seq_inv_def)
  have "set (map ?u (dispatched r)) = set [1..<?k]"
    by (simp only: ids)
  then have idset: "?u ` set (dispatched r) = {1..<?k}"
    by (simp only: set_map set_upt)
  have le: "?k \<le> Suc N"
  proof -
    have "{1..<?k} \<subseteq> {1..N}"
      using sub perm idset by blast
    then show ?thesis
      by (cases "dispatched r = []") (auto simp: subset_eq)
  qed
  have "\<not> ?k \<le> N"
  proof
    assume "?k \<le> N"
    then have "?k \<in> ?u ` set ms" by (simp add: perm)
    then obtain m where m: "m \<in> set ms" and um: "unat (Id_msg m) = ?k" by auto
    then have "cache r (Id_msg m) = Some m" by (simp add: ch)
    moreover have "Id_msg m = current r"
      using um cur by (simp add: word_unat_eq_iff flip: um)
    ultimately show False using nr by simp
  qed
  with le have k: "?k = Suc N" by simp
  have inj: "inj_on Id_msg (set ms)"
    using dist by (simp add: distinct_map)
  have "set ms \<subseteq> set (dispatched r)"
  proof
    fix m assume m: "m \<in> set ms"
    then have "?u m \<in> {1..N}" using perm by blast
    then have "?u m \<in> ?u ` set (dispatched r)" by (simp only: idset k) auto
    then obtain m' where m': "m' \<in> set (dispatched r)" and "?u m' = ?u m" by auto
    then have "Id_msg m' = Id_msg m" by (simp add: word_unat_eq_iff)
    with inj m m' sub have "m' = m" by (auto dest: inj_onD)
    with m' show "m \<in> set (dispatched r)" by simp
  qed
  with sub have sets: "set (dispatched r) = set ms" by auto
  have "cache r q = None" for q
  proof (cases "cache r q")
    case None then show ?thesis .
  next
    case (Some m)
    then have "m \<in> set ms" and "Suc N \<le> ?u m" using ch [of q m] k by auto
    moreover from \<open>m \<in> set ms\<close> have "?u m \<in> {1..N}" using perm by blast
    ultimately show ?thesis by simp
  qed
  then have "cache r = Map.empty" by (simp add: fun_eq_iff)
  with run ids k sets rep show ?thesis by simp
qed

theorem resequencer_order_witness:
  "distinct (map Id_msg feed213)
   \<and> (\<lambda>m. unat (Id_msg m)) ` set feed213 = {1..3}
   \<and> readSource 0 (in_order feed213) srvXY
       = Waiting (state_of (readSource 0 (in_order feed213) srvXY))
   \<and> dispatched (state_of (readSource 0 (in_order feed213) srvXY))
       = [Broadcast 1, Broadcast 2, Broadcast 3]
   \<and> wrote (server (state_of (readSource 0 (in_order feed213) srvXY))) 2
       = [(clientY, Broadcast 1), (clientY, Broadcast 2), (clientY, Broadcast 3)]"
proof -
  have d: "distinct (map Id_msg feed213)"
    by (simp add: feed213_def)
  have p: "(\<lambda>m. unat (Id_msg m)) ` set feed213 = {1..3}"
    by (auto simp: feed213_def)
  have e: "dispatched (state_of (readSource 0 (in_order feed213) srvXY))
             = [Broadcast 1, Broadcast 2, Broadcast 3]"
    by (simp add: feed213_def in_order_def readSource_def readSource_init_def admit_def
        pump.simps Let_def)
  have w: "wrote (server (state_of (readSource 0 (in_order feed213) srvXY))) 2
       = [(clientY, Broadcast 1), (clientY, Broadcast 2), (clientY, Broadcast 3)]"
    by (simp add: feed213_def in_order_def readSource_def readSource_init_def admit_def
        pump.simps Let_def srvXY_def NewNetServer_def Dispatch.simps NetServer_Broadcast_def)
  from resequencer_order [OF d p, of 0 srvXY] d p e w show ?thesis
    by auto
qed

subsection \<open>The cache never holds the expected number\<close>

lemma pump_run:
  "\<exists>ds. dispatched (pump r) = dispatched r @ ds
        \<and> current (pump r) = current r + of_nat (length ds)
        \<and> (\<forall>i<length ds. cache r (current r + of_nat i) = Some (ds ! i))
        \<and> (\<forall>q. cache (pump r) q = None \<or> cache (pump r) q = cache r q)"
proof (induction r rule: pump.induct)
  case (1 r)
  show ?case
  proof (cases "cache r (current r)")
    case None
    then have "pump r = r" by (simp add: pump.simps)
    then show ?thesis by simp
  next
    case (Some m)
    let ?r' = "r\<lparr>server := Dispatch m (server r), dispatched := dispatched r @ [m],
                  cache := (cache r)(current r := None),
                  messagesSent := messagesSent r + 1, current := current r + 1\<rparr>"
    have p: "pump r = pump ?r'"
      using Some by (subst pump.simps) simp
    from "1.IH" [OF Some] obtain ds where
      d: "dispatched (pump ?r') = dispatched ?r' @ ds"
      and c: "current (pump ?r') = current ?r' + of_nat (length ds)"
      and e: "\<forall>i<length ds. cache ?r' (current ?r' + of_nat i) = Some (ds ! i)"
      and s: "\<forall>q. cache (pump ?r') q = None \<or> cache (pump ?r') q = cache ?r' q"
      by blast
    have sub: "cache ?r' q = Some x \<Longrightarrow> cache r q = Some x" for q x
      by (simp split: if_splits)
    have "dispatched (pump r) = dispatched r @ (m # ds)"
      using d by (simp add: p)
    moreover have "current (pump r) = current r + of_nat (length (m # ds))"
      using c by (simp add: p)
    moreover have "\<forall>i<length (m # ds). cache r (current r + of_nat i) = Some ((m # ds) ! i)"
    proof (intro allI impI)
      fix i assume i: "i < length (m # ds)"
      show "cache r (current r + of_nat i) = Some ((m # ds) ! i)"
      proof (cases i)
        case 0
        then show ?thesis using Some by simp
      next
        case (Suc j)
        with i have "j < length ds" by simp
        with e have "cache ?r' (current ?r' + of_nat j) = Some (ds ! j)" by blast
        then have "cache r (current ?r' + of_nat j) = Some (ds ! j)" by (rule sub)
        then show ?thesis using Suc by (simp add: ac_simps)
      qed
    qed
    moreover have "\<forall>q. cache (pump r) q = None \<or> cache (pump r) q = cache r q"
    proof
      fix q
      from s have "cache (pump ?r') q = None \<or> cache (pump ?r') q = cache ?r' q" by blast
      then show "cache (pump r) q = None \<or> cache (pump r) q = cache r q"
        by (auto simp: p split: if_splits)
    qed
    ultimately show ?thesis by blast
  qed
qed

lemma readSource_loop_no_ready:
  "cache r (current r) = None \<Longrightarrow>
     cache (state_of (readSource_loop src feed r)) (current (state_of (readSource_loop src feed r))) = None"
proof (induction feed arbitrary: r)
  case Nil
  then show ?case by simp
next
  case (Cons p feed)
  obtain msg err where p: "p = (msg, err)" by (cases p)
  let ?r1 = "case msg of Some m \<Rightarrow> admit m r | None \<Rightarrow> r"
  have nr: "cache ?r1 (current ?r1) = None"
    using Cons.prems by (cases msg) (simp_all add: admit_no_ready)
  show ?case
  proof (cases err)
    case None
    then show ?thesis using Cons.IH [OF nr] by (simp add: p Let_def)
  next
    case (Some e)
    then show ?thesis using nr by (simp add: p Let_def)
  qed
qed

lemma pump_above:
  "(\<forall>q x. cache r q = Some x \<longrightarrow> current r \<le> q) \<Longrightarrow>
     (\<forall>q x. cache (pump r) q = Some x \<longrightarrow> current (pump r) < q)"
proof (induction r rule: pump.induct)
  case (1 r)
  show ?case
  proof (cases "cache r (current r)")
    case None
    have "current r < q" if "cache r q = Some x" for q x
    proof -
      from that "1.prems" have "current r \<le> q" by blast
      moreover from that None have "q \<noteq> current r" by auto
      ultimately show ?thesis by simp
    qed
    then show ?thesis using None by (subst (1 2) pump.simps) simp
  next
    case (Some m)
    let ?r' = "r\<lparr>server := Dispatch m (server r), dispatched := dispatched r @ [m],
                  cache := (cache r)(current r := None),
                  messagesSent := messagesSent r + 1, current := current r + 1\<rparr>"
    have "\<forall>q x. cache ?r' q = Some x \<longrightarrow> current ?r' \<le> q"
    proof (intro allI impI)
      fix q x assume c: "cache ?r' q = Some x"
      then have ne: "q \<noteq> current r" and "cache r q = Some x"
        by (simp_all split: if_splits)
      with "1.prems" have "current r \<le> q" by blast
      with ne have "current r < q" by simp
      then show "current ?r' \<le> q" by (simp add: inc_le)
    qed
    from "1.IH" [OF Some this] show ?thesis
      using Some by (subst (1 2) pump.simps) simp
  qed
qed

lemma admit_above:
  assumes "\<forall>q x. cache r q = Some x \<longrightarrow> current r < q" and "\<not> Id_msg m < current r"
  shows "\<forall>q x. cache (admit m r) q = Some x \<longrightarrow> current (admit m r) < q"
proof (cases "Id_msg m = current r")
  case False
  with assms(2) have "current r < Id_msg m" by simp
  with assms(1) False show ?thesis
    by (simp add: admit_def Let_def)
next
  case True
  let ?r0 = "r\<lparr>messagesRecieved := messagesRecieved r + 1\<rparr>"
  let ?r1 = "?r0\<lparr>server := Dispatch m (server ?r0), dispatched := dispatched ?r0 @ [m],
               messagesSent := messagesSent ?r0 + 1, current := current ?r0 + 1\<rparr>"
  have "\<forall>q x. cache ?r1 q = Some x \<longrightarrow> current ?r1 \<le> q"
    using assms(1) by (auto simp: inc_le)
  from pump_above [OF this] show ?thesis
    using True by (simp add: admit_def Let_def)
qed

lemma readSource_loop_above:
  "\<forall>q x. cache r q = Some x \<longrightarrow> current r < q \<Longrightarrow> no_stale feed r \<Longrightarrow>
     \<forall>q x. cache (state_of (readSource_loop src feed r)) q = Some x
              \<longrightarrow> current (state_of (readSource_loop src feed r)) < q"
proof (induction feed arbitrary: r)
  case Nil
  then show ?case by simp
next
  case (Cons p feed)
  obtain msg err where p: "p = (msg, err)" by (cases p)
  let ?r1 = "case msg of Some m \<Rightarrow> admit m r | None \<Rightarrow> r"
  have ab: "\<forall>q x. cache ?r1 q = Some x \<longrightarrow> current ?r1 < q"
  proof (cases msg)
    case None
    then show ?thesis using Cons.prems(1) by simp
  next
    case (Some m)
    with Cons.prems(2) have "\<not> Id_msg m < current r" by (simp add: p)
    from admit_above [OF Cons.prems(1) this] Some show ?thesis by simp
  qed
  show ?case
  proof (cases err)
    case None
    with Cons.prems(2) have "no_stale feed ?r1" by (simp add: p)
    from Cons.IH [OF ab this] None show ?thesis by (simp add: p Let_def)
  next
    case (Some e)
    then show ?thesis using ab by (simp add: p Let_def)
  qed
qed

lemma readSource_above:
  "no_stale feed (readSource_init srv) \<Longrightarrow>
     \<forall>q x. cache (state_of (readSource src feed srv)) q = Some x
              \<longrightarrow> current (state_of (readSource src feed srv)) < q"
  unfolding readSource_def
  by (rule readSource_loop_above) (simp_all add: readSource_init_def)

lemma readSource_distinct_above:
  assumes dist: "distinct (map Id_msg ms)" and nz: "0 \<notin> Id_msg ` set ms"
  shows "\<forall>q x. cache (state_of (readSource src (in_order ms) srv)) q = Some x
              \<longrightarrow> current (state_of (readSource src (in_order ms) srv)) < q"
proof -
  have "\<exists>r'. readSource_loop src (in_order ms) (readSource_init srv) = Waiting r'
          \<and> seq_inv ({} \<union> set ms) r' \<and> cache r' (current r') = None
          \<and> server r' = replay srv (dispatched r')"
    by (rule feed_seq_inv [OF init_seq_inv _ dist _ nz])
       (simp_all add: readSource_init_def replay_def)
  then obtain r where run: "readSource src (in_order ms) srv = Waiting r"
    and inv: "seq_inv (set ms) r" and nr: "cache r (current r) = None"
    by (auto simp: readSource_def)
  let ?k = "Suc (length (dispatched r))"
  from inv have cur: "current r = of_nat ?k"
    and ch: "\<And>q m. cache r q = Some m \<Longrightarrow> ?k \<le> unat q"
    by (simp_all add: seq_inv_def)
  have "current r < q" if c: "cache r q = Some x" for q x
  proof -
    have "unat (current r) \<le> ?k"
      by (simp only: cur unat_of_nat) simp
    with ch [OF c] have "unat (current r) \<le> unat q" by simp
    moreover from c nr have "q \<noteq> current r" by auto
    ultimately show ?thesis
      by (simp add: word_less_nat_alt word_unat_eq_iff)
  qed
  then show ?thesis by (simp add: run)
qed

lemma after1_fields:
  "current after1 = 2 \<and> cache after1 = Map.empty \<and> dispatched after1 = [Broadcast 1]"
  by (simp add: after1_def in_order_def readSource_def readSource_init_def admit_def
      pump.simps Let_def)

lemma after2_fields:
  "current after2 = 1 \<and> cache after2 = [2 \<mapsto> Broadcast 2] \<and> dispatched after2 = []"
  by (simp add: after2_def in_order_def readSource_def readSource_init_def admit_def
      pump.simps Let_def)

lemma after32_fields:
  "current after32 = 1 \<and> cache after32 2 = Some (Broadcast 2)
   \<and> cache after32 3 = Some (Broadcast 3) \<and> dispatched after32 = []"
  by (simp add: after32_def in_order_def readSource_def readSource_init_def admit_def
      pump.simps Let_def)

text \<open>
  Claim C3, as amended. Whatever \<^verbatim>\<open>WaitMessage\<close> has returned, the cache of
  \<^verbatim>\<open>readSource\<close> has no entry at \<open>current\<close>. Every key of the cache is strictly greater
  than \<open>current\<close> as long as no message has arrived with a number below the value of
  \<open>current\<close> at its arrival; this is so, in particular, whenever the messages fed carry
  distinct numbers other than 0. A message whose number equals \<open>current\<close> is not stored: it
  is dispatched, followed by the cached messages at the numbers after it for as long as
  there is one, \<open>current\<close> ends after the last of them, and the cache only loses entries.
\<close>

theorem buffer_never_holds_current:
  "cache (state_of (readSource src feed srv)) (current (state_of (readSource src feed srv))) = None
   \<and> (no_stale feed (readSource_init srv) \<longrightarrow>
        (\<forall>q x. cache (state_of (readSource src feed srv)) q = Some x
                 \<longrightarrow> current (state_of (readSource src feed srv)) < q))
   \<and> (distinct (map Id_msg ms) \<and> 0 \<notin> Id_msg ` set ms \<longrightarrow>
        (\<forall>q x. cache (state_of (readSource src (in_order ms) srv)) q = Some x
                 \<longrightarrow> current (state_of (readSource src (in_order ms) srv)) < q))
   \<and> (Id_msg m = current r \<longrightarrow>
        (\<exists>ds. dispatched (admit m r) = dispatched r @ m # ds
             \<and> current (admit m r) = current r + 1 + of_nat (length ds)
             \<and> (\<forall>i<length ds. cache r (current r + 1 + of_nat i) = Some (ds ! i))
             \<and> (\<forall>q. cache (admit m r) q = None \<or> cache (admit m r) q = cache r q)
             \<and> cache (admit m r) (current (admit m r)) = None))"
proof -
  have 1: "cache (state_of (readSource src feed srv))
             (current (state_of (readSource src feed srv))) = None"
    unfolding readSource_def
    by (rule readSource_loop_no_ready) (simp add: readSource_init_def)
  have 2: "no_stale feed (readSource_init srv) \<longrightarrow>
        (\<forall>q x. cache (state_of (readSource src feed srv)) q = Some x
                 \<longrightarrow> current (state_of (readSource src feed srv)) < q)"
    using readSource_above [of feed srv src] by blast
  have 3: "distinct (map Id_msg ms) \<and> 0 \<notin> Id_msg ` set ms \<longrightarrow>
        (\<forall>q x. cache (state_of (readSource src (in_order ms) srv)) q = Some x
                 \<longrightarrow> current (state_of (readSource src (in_order ms) srv)) < q)"
    using readSource_distinct_above [of ms src srv] by blast
  have 4: "\<exists>ds. dispatched (admit m r) = dispatched r @ m # ds
             \<and> current (admit m r) = current r + 1 + of_nat (length ds)
             \<and> (\<forall>i<length ds. cache r (current r + 1 + of_nat i) = Some (ds ! i))
             \<and> (\<forall>q. cache (admit m r) q = None \<or> cache (admit m r) q = cache r q)
             \<and> cache (admit m r) (current (admit m r)) = None"
    if eq: "Id_msg m = current r"
  proof -
    let ?r0 = "r\<lparr>messagesRecieved := messagesRecieved r + 1\<rparr>"
    let ?r1 = "?r0\<lparr>server := Dispatch m (server ?r0), dispatched := dispatched ?r0 @ [m],
                 messagesSent := messagesSent ?r0 + 1, current := current ?r0 + 1\<rparr>"
    have a: "admit m r = (pump ?r1)\<lparr>cacheSize := int (card (dom (cache (pump ?r1))))\<rparr>"
      using eq by (simp add: admit_def Let_def)
    from pump_run [of ?r1] obtain ds where
      d: "dispatched (pump ?r1) = dispatched ?r1 @ ds"
      and c: "current (pump ?r1) = current ?r1 + of_nat (length ds)"
      and e: "\<forall>i<length ds. cache ?r1 (current ?r1 + of_nat i) = Some (ds ! i)"
      and s: "\<forall>q. cache (pump ?r1) q = None \<or> cache (pump ?r1) q = cache ?r1 q"
      by blast
    have "dispatched (admit m r) = dispatched r @ m # ds"
      using d by (simp add: a)
    moreover have "current (admit m r) = current r + 1 + of_nat (length ds)"
      using c by (simp add: a)
    moreover have "\<forall>i<length ds. cache r (current r + 1 + of_nat i) = Some (ds ! i)"
      using e by simp
    moreover have "\<forall>q. cache (admit m r) q = None \<or> cache (admit m r) q = cache r q"
      using s by (simp add: a)
    moreover have "cache (admit m r) (current (admit m r)) = None"
      using pump_no_ready [of ?r1] by (simp add: a)
    ultimately show ?thesis
      by blast
  qed
  from 4 have 5: "Id_msg m = current r \<longrightarrow>
        (\<exists>ds. dispatched (admit m r) = dispatched r @ m # ds
             \<and> current (admit m r) = current r + 1 + of_nat (length ds)
             \<and> (\<forall>i<length ds. cache r (current r + 1 + of_nat i) = Some (ds ! i))
             \<and> (\<forall>q. cache (admit m r) q = None \<or> cache (admit m r) q = cache r q)
             \<and> cache (admit m r) (current (admit m r)) = None)"
    by (rule impI)
  show ?thesis
    by (rule conjI [OF 1 conjI [OF 2 conjI [OF 3 5]]])
qed

theorem buffer_never_holds_current_witness:
  "Id_msg (Broadcast 1) = current after2
   \<and> dispatched (admit (Broadcast 1) after2) = [Broadcast 1, Broadcast 2]
   \<and> current (admit (Broadcast 1) after2) = 3
   \<and> cache (admit (Broadcast 1) after2) = Map.empty
   \<and> cache after11 (current after11) = None
   \<and> no_stale (in_order [Broadcast 3, Broadcast 2]) (readSource_init NewNetServer)
   \<and> distinct (map Id_msg [Broadcast 3, Broadcast 2])
   \<and> 0 \<notin> Id_msg ` set [Broadcast 3, Broadcast 2]
   \<and> cache after32 2 = Some (Broadcast 2)
   \<and> cache after32 3 = Some (Broadcast 3)
   \<and> current after32 < 2
   \<and> current after32 < 3"
proof -
  have e: "Id_msg (Broadcast 1) = current after2"
    by (simp add: after2_fields)
  have a: "dispatched (admit (Broadcast 1) after2) = [Broadcast 1, Broadcast 2]
           \<and> current (admit (Broadcast 1) after2) = 3
           \<and> cache (admit (Broadcast 1) after2) = Map.empty"
    by (simp add: admit_def Let_def pump.simps after2_fields)
  from buffer_never_holds_current
         [where src = 0 and feed = "in_order [Broadcast 1, Broadcast 1]" and srv = NewNetServer
            and m = "Broadcast 1" and r = after2]
  have n: "cache after11 (current after11) = None"
    by (simp add: after11_def)
  have f: "no_stale (in_order [Broadcast 3, Broadcast 2]) (readSource_init NewNetServer)"
    by (simp add: in_order_def readSource_init_def admit_def Let_def)
  have d: "distinct (map Id_msg [Broadcast 3, Broadcast 2])
           \<and> 0 \<notin> Id_msg ` set [Broadcast 3, Broadcast 2]"
    by simp
  have c: "cache after32 2 = Some (Broadcast 2) \<and> cache after32 3 = Some (Broadcast 3)"
    by (simp add: after32_fields)
  from buffer_never_holds_current
         [where src = 0 and feed = "in_order [Broadcast 3, Broadcast 2]" and srv = NewNetServer
            and ms = "[Broadcast 3, Broadcast 2]"]
       f d
  have "\<forall>q x. cache after32 q = Some x \<longrightarrow> current after32 < q"
    by (simp only: after32_def) blast
  with c have "current after32 < 2 \<and> current after32 < 3"
    by blast
  with e a n f d c show ?thesis
    by simp
qed

text \<open>
  Claim C3 as stated fails: after the message numbered 1 arrived twice, \<open>current\<close> is 2 and
  the cache holds the key 1.
\<close>

theorem buffer_holds_stale_key:
  "current after11 = 2 \<and> cache after11 1 = Some (Broadcast 1) \<and> \<not> current after11 < 1"
  by (simp add: after11_def in_order_def readSource_def readSource_init_def admit_def
      pump.simps Let_def)

subsection \<open>Any feed is dispatched in sequence; a stale message is cached\<close>

lemma ord_inv_fields:
  "current r' = current r \<Longrightarrow> dispatched r' = dispatched r \<Longrightarrow> cache r' = cache r \<Longrightarrow>
     ord_inv n r' = ord_inv n r"
  by (simp add: ord_inv_def)

lemma ord_inv_mono: "ord_inv n r \<Longrightarrow> n \<le> n' \<Longrightarrow> ord_inv n' r"
  by (simp add: ord_inv_def)

lemma pump_ord_inv: "ord_inv n r \<Longrightarrow> n < 2 ^ 64 \<Longrightarrow> ord_inv n (pump r)"
proof (induction r rule: pump.induct)
  case (1 r)
  let ?k = "Suc (length (dispatched r))"
  show ?case
  proof (cases "cache r (current r)")
    case None
    then show ?thesis using "1.prems" by (simp add: pump.simps)
  next
    case (Some m)
    let ?r' = "r\<lparr>server := Dispatch m (server r), dispatched := dispatched r @ [m],
                  cache := (cache r)(current r := None),
                  messagesSent := messagesSent r + 1, current := current r + 1\<rparr>"
    from "1.prems" have cur: "current r = of_nat ?k"
      and ids: "map (\<lambda>m. unat (Id_msg m)) (dispatched r) = [1..<?k]"
      and key: "\<And>q m. cache r q = Some m \<Longrightarrow> Id_msg m = q"
      and sz: "length (dispatched r) + card (dom (cache r)) \<le> n"
      by (simp_all add: ord_inv_def)
    have mem: "current r \<in> dom (cache r)"
      using Some by (simp add: domI)
    then have pos: "0 < card (dom (cache r))"
      by (auto simp: card_gt_0_iff)
    with sz "1.prems"(2) have k64: "?k < 2 ^ 64" by simp
    have uk: "unat (current r) = ?k"
      using k64 by (simp only: cur unat_of_nat64)
    have idm: "Id_msg m = current r"
      using key [OF Some] .
    have cd: "card (dom ((cache r)(current r := None))) = card (dom (cache r)) - 1"
      using mem by simp
    have "ord_inv n ?r'"
      unfolding ord_inv_def
    proof (intro conjI allI impI)
      show "current ?r' = of_nat (Suc (length (dispatched ?r')))"
        by (simp add: cur)
      show "map (\<lambda>m. unat (Id_msg m)) (dispatched ?r') = [1..<Suc (length (dispatched ?r'))]"
        using ids by (simp add: idm uk)
      show "length (dispatched ?r') + card (dom (cache ?r')) \<le> n"
        using sz pos cd by simp
      fix q m' assume "cache ?r' q = Some m'"
      then show "Id_msg m' = q"
        using key [of q m'] by (simp split: if_splits)
    qed
    then have "ord_inv n (pump ?r')"
      using "1.IH" [OF Some] "1.prems"(2) by simp
    then show ?thesis
      using Some by (subst pump.simps) simp
  qed
qed

lemma admit_ord_inv:
  assumes inv: "ord_inv n r" and n: "Suc n < 2 ^ 64"
  shows "ord_inv (Suc n) (admit m r)"
proof (cases "Id_msg m = current r")
  case False
  let ?r' = "r\<lparr>cache := (cache r)(Id_msg m \<mapsto> m)\<rparr>"
  have "card (dom (cache ?r')) \<le> Suc (card (dom (cache r)))"
    by (simp add: card_insert_if)
  then have "ord_inv (Suc n) ?r'"
    using inv by (auto simp: ord_inv_def)
  moreover have "ord_inv (Suc n) (admit m r) = ord_inv (Suc n) ?r'"
    using False by (intro ord_inv_fields) (simp_all add: admit_def Let_def)
  ultimately show ?thesis by simp
next
  case True
  let ?k = "Suc (length (dispatched r))"
  let ?r1 = "r\<lparr>server := Dispatch m (server r), dispatched := dispatched r @ [m],
               messagesSent := messagesSent r + 1, current := current r + 1\<rparr>"
  let ?r0 = "r\<lparr>messagesRecieved := messagesRecieved r + 1\<rparr>"
  let ?r2 = "?r0\<lparr>server := Dispatch m (server ?r0), dispatched := dispatched ?r0 @ [m],
               messagesSent := messagesSent ?r0 + 1, current := current ?r0 + 1\<rparr>"
  from inv have cur: "current r = of_nat ?k"
    and ids: "map (\<lambda>m. unat (Id_msg m)) (dispatched r) = [1..<?k]"
    and key: "\<And>q m. cache r q = Some m \<Longrightarrow> Id_msg m = q"
    and sz: "length (dispatched r) + card (dom (cache r)) \<le> n"
    by (simp_all add: ord_inv_def)
  from sz n have k64: "?k < 2 ^ 64" by simp
  have uk: "unat (current r) = ?k"
    using k64 by (simp only: cur unat_of_nat64)
  have "ord_inv (Suc n) ?r1"
    unfolding ord_inv_def
  proof (intro conjI allI impI)
    show "current ?r1 = of_nat (Suc (length (dispatched ?r1)))"
      by (simp add: cur)
    show "map (\<lambda>m. unat (Id_msg m)) (dispatched ?r1) = [1..<Suc (length (dispatched ?r1))]"
      using ids by (simp add: True uk)
    show "length (dispatched ?r1) + card (dom (cache ?r1)) \<le> Suc n"
      using sz by simp
    fix q m' assume "cache ?r1 q = Some m'"
    then show "Id_msg m' = q"
      using key [of q m'] by simp
  qed
  moreover have "ord_inv (Suc n) ?r2 = ord_inv (Suc n) ?r1"
    by (intro ord_inv_fields) simp_all
  ultimately have "ord_inv (Suc n) (pump ?r2)"
    using pump_ord_inv n by blast
  moreover have "ord_inv (Suc n) (admit m r) = ord_inv (Suc n) (pump ?r2)"
    using True by (intro ord_inv_fields) (simp_all add: admit_def Let_def)
  ultimately show ?thesis by simp
qed

lemma readSource_loop_ord_inv:
  "ord_inv n r \<Longrightarrow> n + length feed < 2 ^ 64 \<Longrightarrow>
     ord_inv (n + length feed) (state_of (readSource_loop src feed r))"
proof (induction feed arbitrary: r n)
  case Nil
  then show ?case by simp
next
  case (Cons p feed)
  obtain msg err where p: "p = (msg, err)" by (cases p)
  let ?r1 = "case msg of Some m \<Rightarrow> admit m r | None \<Rightarrow> r"
  have sn: "Suc n < 2 ^ 64" and rest: "Suc n + length feed < 2 ^ 64"
    using Cons.prems(2) by simp_all
  have inv1: "ord_inv (Suc n) ?r1"
  proof (cases msg)
    case None
    then show ?thesis using ord_inv_mono [OF Cons.prems(1), of "Suc n"] by simp
  next
    case (Some m)
    then show ?thesis using admit_ord_inv [OF Cons.prems(1) sn] by simp
  qed
  show ?case
  proof (cases err)
    case None
    then show ?thesis using Cons.IH [OF inv1 rest] by (simp add: p Let_def)
  next
    case (Some e)
    have "ord_inv (n + length (p # feed)) ?r1"
      using ord_inv_mono [OF inv1] by simp
    moreover have "ord_inv (n + length (p # feed)) (state_of (readSource_loop src (p # feed) r))
        = ord_inv (n + length (p # feed)) ?r1"
      using Some by (intro ord_inv_fields) (simp_all add: p Let_def)
    ultimately show ?thesis by simp
  qed
qed

lemma readSource_in_sequence:
  assumes "length feed < 2 ^ 64"
  shows "map (\<lambda>m. unat (Id_msg m)) (dispatched (state_of (readSource src feed srv)))
           = [1..<Suc (length (dispatched (state_of (readSource src feed srv))))]"
proof -
  have "ord_inv 0 (readSource_init srv)"
    by (simp add: ord_inv_def readSource_init_def)
  from readSource_loop_ord_inv [OF this, of feed src] assms
  show ?thesis by (simp add: ord_inv_def readSource_def)
qed

lemma admit_other:
  "Id_msg m \<noteq> current r \<Longrightarrow>
     admit m r =
       r\<lparr>messagesRecieved := messagesRecieved r + 1,
         cache := (cache r)(Id_msg m \<mapsto> m),
         cacheSize := int (card (dom ((cache r)(Id_msg m \<mapsto> m))))\<rparr>"
  by (simp add: admit_def Let_def)

text \<open>
  Claim C4, as amended. A message whose number is below \<open>current\<close> is not dispatched when
  it arrives, and \<open>current\<close> and the server stay as they are; but the message is stored in
  the cache under its number, \<open>messagesRecieved\<close> goes up by one and \<open>cacheSize\<close> is set to
  the size of the cache. The step is a total function, so nothing fails. Over any feed of
  fewer than \<open>2 ^ 64\<close> results the dispatched messages are numbered 1, 2, ... in this
  order, so no number is dispatched a second time.
\<close>

theorem stale_record_is_buffered:
  "(Id_msg m < current r \<longrightarrow>
      dispatched (admit m r) = dispatched r \<and> current (admit m r) = current r
      \<and> server (admit m r) = server r
      \<and> cache (admit m r) = (cache r)(Id_msg m \<mapsto> m)
      \<and> messagesRecieved (admit m r) = messagesRecieved r + 1
      \<and> messagesSent (admit m r) = messagesSent r
      \<and> cacheSize (admit m r) = int (card (dom (cache (admit m r)))))
   \<and> (length feed < 2 ^ 64 \<longrightarrow>
        map (\<lambda>m. unat (Id_msg m)) (dispatched (state_of (readSource src feed srv)))
          = [1..<Suc (length (dispatched (state_of (readSource src feed srv))))])"
proof (intro conjI impI)
  assume "length feed < 2 ^ 64"
  then show "map (\<lambda>m. unat (Id_msg m)) (dispatched (state_of (readSource src feed srv)))
          = [1..<Suc (length (dispatched (state_of (readSource src feed srv))))]"
    by (rule readSource_in_sequence)
qed (simp_all add: admit_other)

text \<open>
  Claim C4 as stated fails: when the message numbered 1 arrives again after it was
  dispatched, the cache, empty before, holds it afterwards.
\<close>

theorem stale_record_changes_buffer:
  "Id_msg (Broadcast 1) < current after1
   \<and> cache after1 1 = None
   \<and> cache (admit (Broadcast 1) after1) 1 = Some (Broadcast 1)
   \<and> cacheSize after1 = 0
   \<and> cacheSize (admit (Broadcast 1) after1) = 1"
  by (simp add: after1_def in_order_def readSource_def readSource_init_def admit_def
      pump.simps Let_def)

theorem stale_record_is_buffered_witness:
  "Id_msg (Broadcast 1) < current after1
   \<and> dispatched (admit (Broadcast 1) after1) = [Broadcast 1]
   \<and> current (admit (Broadcast 1) after1) = 2
   \<and> cache (admit (Broadcast 1) after1) = [1 \<mapsto> Broadcast 1]
   \<and> length (in_order [Broadcast 1, Broadcast 1]) < 2 ^ 64
   \<and> map (\<lambda>m. unat (Id_msg m)) (dispatched after11) = [1]"
proof -
  have s: "Id_msg (Broadcast 1) < current after1"
    by (simp add: after1_fields)
  have l: "length (in_order [Broadcast 1, Broadcast 1]) < 2 ^ 64"
    by (simp add: in_order_def)
  have d: "dispatched after11 = [Broadcast 1]"
    by (simp add: after11_def in_order_def readSource_def readSource_init_def admit_def
        pump.simps Let_def)
  from stale_record_is_buffered
         [of "Broadcast 1" after1 "in_order [Broadcast 1, Broadcast 1]" 0 NewNetServer]
       s l d
  show ?thesis
    by (simp add: after1_fields after11_def)
qed

subsection \<open>The counters do not steer the loop\<close>

lemma pump_same_core: "same_core r r' \<Longrightarrow> same_core (pump r) (pump r')"
proof (induction r arbitrary: r' rule: pump.induct)
  case (1 r)
  show ?case
  proof (cases "cache r (current r)")
    case None
    then have "cache r' (current r') = None"
      using "1.prems" by (simp add: same_core_def)
    with None "1.prems" show ?thesis
      by (subst pump.simps, subst (2) pump.simps) simp
  next
    case (Some m)
    then have s': "cache r' (current r') = Some m"
      using "1.prems" by (simp add: same_core_def)
    let ?u = "\<lambda>r. r\<lparr>server := Dispatch m (server r), dispatched := dispatched r @ [m],
                  cache := (cache r)(current r := None),
                  messagesSent := messagesSent r + 1, current := current r + 1\<rparr>"
    have "same_core (?u r) (?u r')"
      using "1.prems" by (simp add: same_core_def)
    from "1.IH" [OF Some this] show ?thesis
      using Some s' by (subst pump.simps, subst (2) pump.simps) simp
  qed
qed

lemma admit_same_core: "same_core r r' \<Longrightarrow> same_core (admit m r) (admit m r')"
proof (cases "Id_msg m = current r")
  case False
  assume "same_core r r'"
  with False show ?thesis by (simp add: admit_def Let_def same_core_def)
next
  case True
  assume s: "same_core r r'"
  let ?u = "\<lambda>r. r\<lparr>messagesRecieved := messagesRecieved r + 1,
                  server := Dispatch m (server r), dispatched := dispatched r @ [m],
                  messagesSent := messagesSent r + 1, current := current r + 1\<rparr>"
  have "same_core (?u r) (?u r')"
    using s by (simp add: same_core_def)
  from pump_same_core [OF this] have "same_core (pump (?u r)) (pump (?u r'))" .
  moreover have "current r' = Id_msg m" using s True by (simp add: same_core_def)
  ultimately show ?thesis
    using True by (simp add: admit_def Let_def same_core_def)
qed

lemma readSource_loop_same_core:
  "same_core r r' \<Longrightarrow>
     same_core (state_of (readSource_loop src feed r)) (state_of (readSource_loop src feed r'))
     \<and> (\<exists>a. readSource_loop src feed r = Waiting a) = (\<exists>a. readSource_loop src feed r' = Waiting a)"
proof (induction feed arbitrary: r r')
  case Nil
  then show ?case by simp
next
  case (Cons p feed)
  obtain msg err where p: "p = (msg, err)" by (cases p)
  let ?f = "\<lambda>r. case msg of Some m \<Rightarrow> admit m r | None \<Rightarrow> r"
  have s1: "same_core (?f r) (?f r')"
    using Cons.prems by (cases msg) (simp_all add: admit_same_core)
  show ?case
  proof (cases err)
    case None
    then show ?thesis using Cons.IH [OF s1] by (simp add: p Let_def)
  next
    case (Some e)
    then show ?thesis using s1 by (simp add: p Let_def same_core_def)
  qed
qed

section \<open>The codec: decoding errors and the round trip\<close>

lemma dec_from_Nil [simp]: "dec_from n [] = n"
  by (simp add: dec_from_def)

lemma dec_from_Cons [simp]: "dec_from n (c # s) = dec_from (n * 10 + (of_char c - 48)) s"
  by (simp add: dec_from_def)

lemma dec_from_append: "dec_from n (s @ t) = dec_from (dec_from n s) t"
  by (simp add: dec_from_def)

lemma dec_from_ge: "n \<le> dec_from n s"
proof (induction s arbitrary: n)
  case Nil
  show ?case by simp
next
  case (Cons c s)
  have "n \<le> n * 10 + (of_char c - 48)" by simp
  also have "\<dots> \<le> dec_from (n * 10 + (of_char c - 48)) s" by (rule Cons.IH)
  finally show ?case by simp
qed

lemma digit_of_digit: "is_digit d \<Longrightarrow> digit_of d = Some (of_char d - 48)"
  by (simp add: digit_of_def is_digit_def)

lemma digit_of_small:
  "digit_of d = Some v \<Longrightarrow> v < 10 \<Longrightarrow> is_digit d \<and> v = of_char d - 48"
  by (auto simp: digit_of_def is_digit_def Let_def split: if_splits)

lemma ParseUint_loop_step:
  assumes dv: "digit_of d = Some v" and v: "v < 10" and n: "n < cutoff10"
  shows "ParseUint_loop (d # ds) n =
           (if n * 10 + v < 2 ^ 64 then ParseUint_loop ds (n * 10 + v)
            else (maxUint64, Some ErrRange))"
proof -
  have n10: "n * 10 < 2 ^ 64"
    using n by (simp add: cutoff10_def maxUint64_def)
  then have m1: "(n * 10) mod 2 ^ 64 = n * 10"
    by simp
  show ?thesis
  proof (cases "n * 10 + v < 2 ^ 64")
    case True
    then have m2: "(n * 10 + v) mod 2 ^ 64 = n * 10 + v"
      by simp
    have "\<not> (n * 10 + v < n * 10 \<or> n * 10 + v > maxUint64)"
      using True by (simp add: maxUint64_def)
    then show ?thesis
      using dv v n True by (simp only: ParseUint_loop.simps Let_def m1 m2) simp
  next
    case False
    have "n * 10 + v < 2 * 2 ^ 64"
      using n10 v by simp
    with False have "(n * 10 + v) mod 2 ^ 64 = n * 10 + v - 2 ^ 64"
      by (simp add: mod_if)
    moreover have "n * 10 + v - 2 ^ 64 < n * 10"
      using False v by simp
    ultimately have m2: "(n * 10 + v) mod 2 ^ 64 < n * 10"
      by simp
    show ?thesis
      using dv v n False m2 by (simp only: ParseUint_loop.simps Let_def m1) simp
  qed
qed

lemma ParseUint_loop_digits:
  "list_all is_digit ds \<Longrightarrow> dec_from n ds < 2 ^ 64 \<Longrightarrow> ParseUint_loop ds n = (dec_from n ds, None)"
proof (induction ds arbitrary: n)
  case Nil
  show ?case by simp
next
  case (Cons d ds)
  let ?v = "of_char d - 48 :: nat"
  from Cons.prems(1) have d: "is_digit d" and ds: "list_all is_digit ds" by simp_all
  have v: "?v < 10" using d by (auto simp: is_digit_def)
  have "n * 10 + ?v \<le> dec_from (n * 10 + ?v) ds" by (rule dec_from_ge)
  with Cons.prems(2) have lt: "n * 10 + ?v < 2 ^ 64" by simp
  then have n: "n < cutoff10" by (simp add: cutoff10_def maxUint64_def)
  have "ParseUint_loop ds (n * 10 + ?v) = (dec_from (n * 10 + ?v) ds, None)"
    using Cons.IH [OF ds] Cons.prems(2) by simp
  then show ?case
    using lt by (simp only: ParseUint_loop_step [OF digit_of_digit [OF d] v n]) simp
qed

lemma ParseUint_loop_ok:
  "snd (ParseUint_loop ds n) = None \<Longrightarrow> n < 2 ^ 64 \<Longrightarrow>
     list_all is_digit ds \<and> dec_from n ds < 2 ^ 64"
proof (induction ds arbitrary: n)
  case Nil
  then show ?case by simp
next
  case (Cons d ds)
  from Cons.prems(1) obtain v where dv: "digit_of d = Some v"
    by (cases "digit_of d") simp_all
  from Cons.prems(1) dv have v: "v < 10"
    by (simp split: if_splits)
  from digit_of_small [OF dv v] have d: "is_digit d" and veq: "v = of_char d - 48"
    by simp_all
  from Cons.prems(1) dv v have n: "n < cutoff10"
    by (simp split: if_splits)
  from Cons.prems(1) have lt: "n * 10 + v < 2 ^ 64"
    and "snd (ParseUint_loop ds (n * 10 + v)) = None"
    by (simp_all only: ParseUint_loop_step [OF dv v n] split: if_splits) simp_all
  from Cons.IH [OF this(2) lt] d veq show ?case by simp
qed

lemma ParseUint_valid: "valid_seq s \<Longrightarrow> ParseUint s = (dec_val s, None)"
  by (cases s) (simp_all add: valid_seq_def ParseUint_def dec_val_def ParseUint_loop_digits
      del: ParseUint_loop.simps)

lemma ParseUint_ok: "snd (ParseUint s) = None \<longleftrightarrow> valid_seq s"
proof
  assume ok: "snd (ParseUint s) = None"
  then have ne: "s \<noteq> []" by (auto simp: ParseUint_def)
  with ok have "snd (ParseUint_loop s 0) = None"
    by (auto simp: ParseUint_def split: prod.splits option.splits)
  from ParseUint_loop_ok [OF this] ne show "valid_seq s"
    by (simp add: valid_seq_def dec_val_def)
next
  assume "valid_seq s"
  then show "snd (ParseUint s) = None" by (simp add: ParseUint_valid)
qed

lemma ParseUint_loop_err:
  "snd (ParseUint_loop ds n) = Some e \<Longrightarrow>
     e = ErrSyntax \<or> (e = ErrRange \<and> fst (ParseUint_loop ds n) = maxUint64)"
proof (induction ds arbitrary: n)
  case Nil
  then show ?case by simp
next
  case (Cons d ds)
  then show ?case
    by (cases e) (auto simp: Let_def split: option.splits if_splits)
qed

lemma ParseUint_err:
  "snd (ParseUint s) \<noteq> None \<Longrightarrow>
     \<not> is_range_error (snd (ParseUint s)) \<or> fst (ParseUint s) = maxUint64"
proof (cases "s = []")
  case True
  then show ?thesis by (simp add: ParseUint_def is_range_error_def)
next
  case False
  assume err: "snd (ParseUint s) \<noteq> None"
  obtain n e where l: "ParseUint_loop s 0 = (n, e)" by (cases "ParseUint_loop s 0")
  with err False obtain e' where e: "e = Some e'"
    by (cases e) (auto simp: ParseUint_def)
  from ParseUint_loop_err [of s 0 e'] l e
  have "e' = ErrSyntax \<or> (e' = ErrRange \<and> n = maxUint64)" by simp
  then show ?thesis
    using False l e by (auto simp: ParseUint_def is_range_error_def)
qed

lemma ParseInt_sign:
  assumes "s = c # ds"
  shows "ParseInt s =
     (let neg = (c = CHR ''-'');
          (un, err) = ParseUint (if c = CHR ''+'' \<or> c = CHR ''-'' then ds else s)
      in if err \<noteq> None \<and> \<not> is_range_error err
         then (0, Some (NumError ''ParseInt'' s ErrSyntax))
         else if \<not> neg \<and> un \<ge> 2 ^ 63 then (2 ^ 63 - 1, Some (NumError ''ParseInt'' s ErrRange))
         else if neg \<and> un > 2 ^ 63 then (- (2 ^ 63), Some (NumError ''ParseInt'' s ErrRange))
         else (if neg then - int un else int un, None))"
  using assms by (simp add: ParseInt_def Let_def split: prod.splits)

lemma ParseInt_body:
  assumes "s = c # ds" and "t = (if c = CHR ''+'' \<or> c = CHR ''-'' then ds else s)"
  shows "snd (ParseInt s) = None \<longleftrightarrow>
           valid_seq t \<and> (if c = CHR ''-'' then dec_val t \<le> 2 ^ 63 else dec_val t < 2 ^ 63)"
    and "snd (ParseInt s) = None \<Longrightarrow>
           fst (ParseInt s) = (if c = CHR ''-'' then - int (dec_val t) else int (dec_val t))"
proof -
  obtain un err where pu: "ParseUint t = (un, err)" by (cases "ParseUint t")
  have pi: "ParseInt s =
     (if err \<noteq> None \<and> \<not> is_range_error err
         then (0, Some (NumError ''ParseInt'' s ErrSyntax))
         else if c \<noteq> CHR ''-'' \<and> un \<ge> 2 ^ 63 then (2 ^ 63 - 1, Some (NumError ''ParseInt'' s ErrRange))
         else if c = CHR ''-'' \<and> un > 2 ^ 63 then (- (2 ^ 63), Some (NumError ''ParseInt'' s ErrRange))
         else (if c = CHR ''-'' then - int un else int un, None))"
    using pu assms(2) by (simp add: ParseInt_sign [OF assms(1)] Let_def)
  show "snd (ParseInt s) = None \<longleftrightarrow>
           valid_seq t \<and> (if c = CHR ''-'' then dec_val t \<le> 2 ^ 63 else dec_val t < 2 ^ 63)"
  proof (cases "valid_seq t")
    case True
    then have "un = dec_val t" and "err = None"
      using pu by (simp_all add: ParseUint_valid)
    then show ?thesis using True by (auto simp: pi)
  next
    case False
    then have e: "err \<noteq> None"
      using ParseUint_ok [of t] pu by simp
    then have "\<not> is_range_error err \<or> un = maxUint64"
      using ParseUint_err [of t] pu by simp
    then show ?thesis
      using False e by (auto simp: pi maxUint64_def)
  qed
  show "fst (ParseInt s) = (if c = CHR ''-'' then - int (dec_val t) else int (dec_val t))"
    if ok: "snd (ParseInt s) = None"
  proof (cases "valid_seq t")
    case True
    then have "un = dec_val t" and "err = None"
      using pu by (simp_all add: ParseUint_valid)
    then show ?thesis using ok by (auto simp: pi split: if_splits)
  next
    case False
    then have e: "err \<noteq> None"
      using ParseUint_ok [of t] pu by simp
    then have "\<not> is_range_error err \<or> un = maxUint64"
      using ParseUint_err [of t] pu by simp
    then show ?thesis
      using ok e by (auto simp: pi maxUint64_def split: if_splits)
  qed
qed

lemma ParseInt_ok: "snd (ParseInt s) = None \<longleftrightarrow> valid_user_id s"
proof (cases s)
  case Nil
  then show ?thesis by (simp add: ParseInt_def valid_user_id_def)
next
  case (Cons c ds)
  have "is_digit c \<Longrightarrow> c \<noteq> CHR ''-'' \<and> c \<noteq> CHR ''+''"
    by (auto simp: is_digit_def)
  then show ?thesis
    using ParseInt_body(1) [OF Cons refl]
    by (auto simp: valid_user_id_def valid_seq_def Cons)
qed

lemma ParseInt_val: "valid_user_id s \<Longrightarrow> ParseInt s = (user_id_val s, None)"
proof (cases s)
  case Nil
  assume "valid_user_id s"
  with Nil show ?thesis by (simp add: valid_user_id_def)
next
  case (Cons c ds)
  assume v: "valid_user_id s"
  then have ok: "snd (ParseInt s) = None" by (simp add: ParseInt_ok)
  from ParseInt_body(2) [OF Cons refl ok] ok show ?thesis
    by (auto simp: user_id_val_def Cons prod_eq_iff)
qed

lemma ParseUserId_ok: "snd (ParseUserId s) = None \<longleftrightarrow> valid_user_id s"
  using ParseInt_ok [of s] by (auto simp: ParseUserId_def split: prod.splits option.splits)

lemma ParseUserId_val:
  "valid_user_id s \<Longrightarrow> ParseUserId s = (word_of_int (user_id_val s), None)"
  by (simp add: ParseUserId_def ParseInt_val)

lemma ParseSeqId_ok: "snd (ParseSeqId s) = None \<longleftrightarrow> valid_seq s"
  using ParseUint_ok [of s] by (auto simp: ParseSeqId_def split: prod.splits)

lemma ParseSeqId_val: "valid_seq s \<Longrightarrow> ParseSeqId s = (of_nat (dec_val s), None)"
  by (simp add: ParseSeqId_def ParseUint_valid)

lemma parse_args_val:
  "list_all valid_user_id xs \<Longrightarrow>
     parse_args xs acc = Inr (acc @ map (\<lambda>s. word_of_int (user_id_val s)) xs)"
  by (induction xs arbitrary: acc) (simp_all add: ParseUserId_val)

lemma parse_args_err:
  "\<not> list_all valid_user_id xs \<Longrightarrow> \<exists>e. parse_args xs acc = Inl e"
proof (induction xs arbitrary: acc)
  case Nil
  then show ?case by simp
next
  case (Cons x xs)
  show ?case
  proof (cases "valid_user_id x")
    case True
    then show ?thesis using Cons by (simp add: ParseUserId_val)
  next
    case False
    then have "snd (ParseUserId x) \<noteq> None" by (simp add: ParseUserId_ok)
    then show ?thesis by (auto split: prod.splits option.splits)
  qed
qed

lemma NewMessage_ok:
  "snd (NewMessage q tag args) = None \<longleftrightarrow> recognized tag \<and> length args = arity tag"
  by (auto simp: NewMessage_def msgTypeMap_def recognized_def arity_def NewFollow_def
      NewUnfollow_def NewBroadcast_def NewStatusUpdate_def NewPrivateMessage_def)

lemma NewMessage_nil:
  "fst (NewMessage q tag args) = None \<longleftrightarrow> snd (NewMessage q tag args) \<noteq> None"
  by (auto simp: NewMessage_def msgTypeMap_def NewFollow_def
      NewUnfollow_def NewBroadcast_def NewStatusUpdate_def NewPrivateMessage_def)

text \<open>
  Claim C5. \<^verbatim>\<open>ParseMessage\<close> returns an error exactly when the fields of the line are
  malformed in one of the five ways of the specification, and it returns a nil message
  exactly when it returns an error: an error never comes with a message, and a line that is
  not malformed gives one.
\<close>

theorem ParseMessage_error_iff:
  "(snd (ParseMessage line) \<noteq> None \<longleftrightarrow> MalformedMessage (fields_of line))
   \<and> (fst (ParseMessage line) = None \<longleftrightarrow> snd (ParseMessage line) \<noteq> None)"
proof -
  let ?parts = "Split (TrimSpace line) ''|''"
  let ?args = "drop 2 ?parts"
  show ?thesis
  proof (cases "length ?parts < 2")
    case True
    then show ?thesis
      by (simp add: ParseMessage_def Let_def MalformedMessage_def fields_of_def)
  next
    case len: False
    show ?thesis
    proof (cases "valid_seq (?parts ! 0)")
      case False
      then have "snd (ParseSeqId (?parts ! 0)) \<noteq> None" by (simp add: ParseSeqId_ok)
      then show ?thesis
        using len False
        by (auto simp: ParseMessage_def Let_def MalformedMessage_def fields_of_def
            split: prod.splits option.splits)
    next
      case seq: True
      show ?thesis
      proof (cases "list_all valid_user_id ?args")
        case False
        from parse_args_err [OF this, of "[]"] obtain e where "parse_args ?args [] = Inl e" ..
        then show ?thesis
          using len seq False
          by (simp add: ParseMessage_def Let_def MalformedMessage_def fields_of_def
              ParseSeqId_val)
      next
        case True
        let ?ids = "map (\<lambda>s. word_of_int (user_id_val s)) ?args"
        have p: "ParseMessage line = NewMessage (of_nat (dec_val (?parts ! 0))) (?parts ! 1) ?ids"
          using len seq parse_args_val [OF True, of "[]"]
          by (simp add: ParseMessage_def Let_def ParseSeqId_val)
        show ?thesis
          using len seq True NewMessage_ok [of _ "?parts ! 1" ?ids]
            NewMessage_nil [of _ "?parts ! 1" ?ids]
          by (simp add: p MalformedMessage_def fields_of_def)
      qed
    qed
  qed
qed

theorem ParseMessage_error_iff_witness:
  "MalformedMessage (fields_of ''12|S|7|8'')
   \<and> ParseMessage ''12|S|7|8''
       = (None, Some (ErrorNew ''Invalid number of arguments to NewStatusUpdate''))
   \<and> \<not> MalformedMessage (fields_of (''12|S|7'' @ CRLF))
   \<and> ParseMessage (''12|S|7'' @ CRLF) = (Some (StatusUpdate 12 7), None)"
proof -
  have a: "ParseMessage ''12|S|7|8''
       = (None, Some (ErrorNew ''Invalid number of arguments to NewStatusUpdate''))"
    by (simp add: ParseMessage_def TrimSpace_def trim_left.simps space_runes_def Split.simps
        ParseSeqId_def ParseUint_def digit_of_def cutoff10_def maxUint64_def ParseUserId_def
        ParseInt_def is_range_error_def NewMessage_def msgTypeMap_def NewStatusUpdate_def Let_def)
  have b: "ParseMessage (''12|S|7'' @ CRLF) = (Some (StatusUpdate 12 7), None)"
    by (simp add: CRLF_def ParseMessage_def TrimSpace_def trim_left.simps space_runes_def
        Split.simps ParseSeqId_def ParseUint_def digit_of_def cutoff10_def maxUint64_def
        ParseUserId_def ParseInt_def is_range_error_def NewMessage_def msgTypeMap_def
        NewStatusUpdate_def Let_def)
  from ParseMessage_error_iff [of "''12|S|7|8''"] ParseMessage_error_iff [of "''12|S|7'' @ CRLF"]
    a b
  show ?thesis by simp
qed

lemma fields_example:
  "fields_of (''12|S|7'' @ CRLF) = [''12'', ''S'', ''7'']"
  by (simp add: fields_of_def CRLF_def TrimSpace_def trim_left.simps space_runes_def Split.simps)

lemma digit_char_props:
  assumes "k < 10"
  shows "is_digit (digit_char k)" and "of_char (digit_char k) - 48 = k"
proof -
  from assms have "k = 0 \<or> k = 1 \<or> k = 2 \<or> k = 3 \<or> k = 4 \<or> k = 5 \<or> k = 6 \<or> k = 7 \<or> k = 8 \<or> k = 9"
    by arith
  then show "is_digit (digit_char k)" and "of_char (digit_char k) - 48 = k"
    by (auto simp: digit_char_def is_digit_def)
qed

lemma fmt_uint_props:
  "fmt_uint n \<noteq> [] \<and> list_all is_digit (fmt_uint n) \<and> dec_from 0 (fmt_uint n) = n"
proof (induction n rule: fmt_uint.induct)
  case (1 n)
  show ?case
  proof (cases "n < 10")
    case True
    then show ?thesis
      by (subst (1 2 3) fmt_uint.simps) (simp add: digit_char_props)
  next
    case False
    have m: "n mod 10 < 10" by simp
    from "1.IH" [OF False] False show ?thesis
      by (subst (1 2 3) fmt_uint.simps)
         (simp add: dec_from_append digit_char_props [OF m])
  qed
qed

lemma fmt_uint_valid_seq: "n < 2 ^ 64 \<Longrightarrow> valid_seq (fmt_uint n) \<and> dec_val (fmt_uint n) = n"
  using fmt_uint_props [of n] by (simp add: valid_seq_def dec_val_def)

lemma fmt_uint_hd: "is_digit (hd (fmt_uint n))"
  using fmt_uint_props [of n] by (cases "fmt_uint n") simp_all

lemma fmt_uint_last: "is_digit (last (fmt_uint n))"
  using fmt_uint_props [of n] by (cases "fmt_uint n" rule: rev_cases) simp_all

lemma is_digit_not_sign: "is_digit c \<Longrightarrow> c \<noteq> CHR ''-'' \<and> c \<noteq> CHR ''+'' \<and> c \<noteq> CHR ''|''"
  by (auto simp: is_digit_def)

lemma fmt_int_valid:
  assumes "- (2 ^ 63) \<le> i" and "i < 2 ^ 63"
  shows "valid_user_id (fmt_int i) \<and> user_id_val (fmt_int i) = i"
proof (cases "i < 0")
  case True
  have "nat (- i) \<le> 2 ^ 63" using assms(1) by simp
  then show ?thesis
    using True fmt_uint_props [of "nat (- i)"]
    by (simp add: fmt_int_def valid_user_id_def user_id_val_def dec_val_def)
next
  case False
  obtain c ds where f: "fmt_uint (nat i) = c # ds"
    using fmt_uint_props [of "nat i"] by (cases "fmt_uint (nat i)") auto
  have c: "c \<noteq> CHR ''-'' \<and> c \<noteq> CHR ''+''"
    using fmt_uint_hd [of "nat i"] f is_digit_not_sign by simp
  have "nat i < 2 ^ 63" using assms(2) False by simp
  then show ?thesis
    using False fmt_uint_props [of "nat i"] c
    by (simp add: fmt_int_def valid_user_id_def user_id_val_def dec_val_def f)
qed

lemma ParseUserId_fmt: "ParseUserId (fmt_int (sint (u :: UserId))) = (u, None)"
proof -
  have "- (2 ^ 63) \<le> sint u" and "sint u < 2 ^ 63"
    using sint_ge [of u] sint_lt [of u] by simp_all
  from fmt_int_valid [OF this] show ?thesis
    by (simp add: ParseUserId_val)
qed

lemma ParseSeqId_fmt: "ParseSeqId (fmt_uint (unat (q :: SeqId))) = (q, None)"
proof -
  have "unat q < 2 ^ 64"
    using unsigned_less [of q, where ?'a = nat] by simp
  from fmt_uint_valid_seq [OF this] show ?thesis
    by (simp add: ParseSeqId_val)
qed

lemma fmt_uint_no_bar: "CHR ''|'' \<notin> set (fmt_uint n)"
proof
  assume "CHR ''|'' \<in> set (fmt_uint n)"
  moreover have "\<forall>c\<in>set (fmt_uint n). is_digit c"
    using fmt_uint_props [of n] by (simp add: list_all_iff)
  ultimately have "is_digit CHR ''|''" by blast
  then show False by (simp add: is_digit_def)
qed

lemma fmt_int_no_bar: "CHR ''|'' \<notin> set (fmt_int i)"
  by (simp add: fmt_int_def fmt_uint_no_bar)

lemma fmt_int_last: "is_digit (last (fmt_int i))"
  using fmt_uint_last fmt_uint_props by (simp add: fmt_int_def)

lemma fmt_int_nonempty: "fmt_int i \<noteq> []"
  using fmt_uint_props by (simp add: fmt_int_def)

lemma Split_Cons_bar:
  "Split (c # cs) ''|'' =
     (if c = CHR ''|'' then [] # Split cs ''|''
      else (case Split cs ''|'' of p # ps \<Rightarrow> (c # p) # ps | [] \<Rightarrow> [[c]]))"
  by (simp add: Split.simps)

lemma Split_no_bar: "CHR ''|'' \<notin> set a \<Longrightarrow> Split a ''|'' = [a]"
proof (induction a)
  case Nil
  show ?case by (simp add: Split.simps)
next
  case (Cons c a)
  then show ?case by (auto simp: Split_Cons_bar)
qed

lemma Split_bar:
  "CHR ''|'' \<notin> set a \<Longrightarrow> Split (a @ CHR ''|'' # rest) ''|'' = a # Split rest ''|''"
proof (induction a)
  case Nil
  show ?case by (simp add: Split_Cons_bar)
next
  case (Cons c a)
  then show ?case by (auto simp: Split_Cons_bar)
qed

lemma trim_left_stop:
  assumes "s \<noteq> []" and "\<forall>p\<in>set ps. p \<noteq> [] \<longrightarrow> hd p \<noteq> hd s"
  shows "trim_left ps s = s"
proof -
  have "List.find (\<lambda>p. p \<noteq> [] \<and> take (length p) s = p) ps = None"
  proof (simp only: find_None_iff, intro notI)
    assume "\<exists>p. p \<in> set ps \<and> p \<noteq> [] \<and> take (length p) s = p"
    then obtain p where p: "p \<in> set ps" "p \<noteq> []" and t: "take (length p) s = p" by blast
    have "hd (take (length p) s) = hd s"
      using p(2) assms(1) by (cases s; cases p) simp_all
    with t have "hd p = hd s" by simp
    with assms(2) p show False by blast
  qed
  then show ?thesis by (subst trim_left.simps) simp
qed

lemma trim_left_front:
  assumes "s \<noteq> []" and "of_char (hd s) \<notin> space_first"
  shows "trim_left space_runes s = s"
proof (rule trim_left_stop [OF assms(1)])
  from assms(1) obtain c t where s: "s = c # t"
    by (cases s) auto
  show "\<forall>p\<in>set space_runes. p \<noteq> [] \<longrightarrow> hd p \<noteq> hd s"
    using assms(2) unfolding s by (auto simp: space_runes_def space_first_def)
qed

lemma trim_left_back:
  assumes "s \<noteq> []" and "of_char (hd s) \<notin> space_last"
  shows "trim_left (map rev space_runes) s = s"
proof (rule trim_left_stop [OF assms(1)])
  from assms(1) obtain c t where s: "s = c # t"
    by (cases s) auto
  show "\<forall>p\<in>set (map rev space_runes). p \<noteq> [] \<longrightarrow> hd p \<noteq> hd s"
    using assms(2) unfolding s by (auto simp: space_runes_def space_last_def)
qed

lemma trim_left_LF:
  "trim_left (map rev space_runes) (CHR 0x0A # t) = trim_left (map rev space_runes) t"
  by (subst trim_left.simps) (simp add: space_runes_def)

lemma trim_left_CR:
  "trim_left (map rev space_runes) (CHR 0x0D # t) = trim_left (map rev space_runes) t"
  by (subst trim_left.simps) (simp add: space_runes_def)

lemma TrimSpace_line:
  assumes "body \<noteq> []" and "of_char (hd body) \<notin> space_first"
    and "of_char (last body) \<notin> space_last"
  shows "TrimSpace (body @ CRLF) = body"
proof -
  have 1: "trim_left space_runes (body @ CRLF) = body @ CRLF"
    using assms(1,2) by (intro trim_left_front) simp_all
  have 2: "trim_left (map rev space_runes) (rev body) = rev body"
    using assms(1,3) by (intro trim_left_back) (simp_all add: hd_rev)
  have "TrimSpace (body @ CRLF) = rev (trim_left (map rev space_runes) (rev (body @ CRLF)))"
    by (simp only: TrimSpace_def 1)
  also have "rev (body @ CRLF) = CHR 0x0A # CHR 0x0D # rev body"
    by (simp add: CRLF_def)
  finally show ?thesis
    by (simp only: trim_left_LF trim_left_CR 2 rev_rev_ident)
qed

lemma is_digit_not_space:
  "is_digit c \<Longrightarrow> of_char c \<notin> space_first \<and> of_char c \<notin> space_last"
  by (auto simp: is_digit_def space_first_def space_last_def)

lemma Split_join_bar:
  "fs \<noteq> [] \<Longrightarrow> \<forall>f\<in>set fs. CHR ''|'' \<notin> set f \<Longrightarrow> Split (join_bar fs) ''|'' = fs"
proof (induction fs rule: join_bar.induct)
  case 1
  then show ?case by simp
next
  case (2 x)
  then show ?case by (simp add: Split_no_bar)
next
  case (3 x y ys)
  then show ?case by (simp add: Split_bar)
qed

lemma hd_join_bar: "x \<noteq> [] \<Longrightarrow> hd (join_bar (x # xs)) = hd x"
  by (cases xs) simp_all

lemma last_join_bar:
  "fs \<noteq> [] \<Longrightarrow> last fs \<noteq> [] \<Longrightarrow>
     join_bar fs \<noteq> [] \<and> last (join_bar fs) = last (last fs)"
  by (induction fs rule: join_bar.induct) simp_all

lemma join_bar_nonempty: "x \<noteq> [] \<Longrightarrow> join_bar (x # xs) \<noteq> []"
  by (cases xs) simp_all

lemma ParseMessage_join_bar:
  assumes nb: "\<forall>f\<in>set (sq # tag # args). CHR ''|'' \<notin> set f"
    and sq: "sq \<noteq> []" "is_digit (hd sq)"
    and la: "last (sq # tag # args) \<noteq> []" "of_char (last (last (sq # tag # args))) \<notin> space_last"
  shows "ParseMessage (join_bar (sq # tag # args) @ CRLF) =
           (case ParseSeqId sq of
              (seq, Some err) \<Rightarrow> (None, Some err)
            | (seq, None) \<Rightarrow>
                (case parse_args args [] of
                   Inl err \<Rightarrow> (None, Some err)
                 | Inr ids \<Rightarrow> NewMessage seq tag ids))"
proof -
  let ?fs = "sq # tag # args"
  have "hd (join_bar ?fs) = hd sq"
    using sq(1) by (rule hd_join_bar)
  then have "of_char (hd (join_bar ?fs)) \<notin> space_first"
    using sq(2) is_digit_not_space by simp
  moreover have "last (join_bar ?fs) = last (last ?fs)"
    using last_join_bar [OF _ la(1)] by simp
  then have "of_char (last (join_bar ?fs)) \<notin> space_last"
    using la(2) by simp
  ultimately have t: "TrimSpace (join_bar ?fs @ CRLF) = join_bar ?fs"
    using join_bar_nonempty [OF sq(1)] by (intro TrimSpace_line) simp_all
  have s: "Split (join_bar ?fs) ''|'' = ?fs"
    using nb by (intro Split_join_bar) simp_all
  show ?thesis
    by (simp add: ParseMessage_def t s Let_def del: join_bar.simps
        split: prod.splits option.splits sum.splits)
qed

lemma last_tag: "of_char (last ''B'') \<notin> space_last"
  by (simp add: space_last_def)

text \<open>
  Claim C6. \<^verbatim>\<open>String\<close> is a total function on the five kinds of message, and for every
  message \<open>m\<close>, with any sequence number and any user ids, decoding the line that
  \<^verbatim>\<open>String\<close> writes for \<open>m\<close> returns \<open>m\<close> and no error.
\<close>

theorem ParseMessage_String: "ParseMessage (String m) = (Some m, None)"
proof (cases m)
  case (Follow q f t)
  have "String m = join_bar [fmt_uint (unat q), ''F'', fmt_int (sint f), fmt_int (sint t)] @ CRLF"
    by (simp add: Follow)
  moreover have "ParseMessage (join_bar [fmt_uint (unat q), ''F'', fmt_int (sint f), fmt_int (sint t)] @ CRLF)
      = (Some m, None)"
    using fmt_uint_props [of "unat q"] fmt_uint_hd [of "unat q"] fmt_int_nonempty [of "sint t"]
      fmt_int_last [of "sint t"] is_digit_not_space
    by (subst ParseMessage_join_bar)
       (simp_all add: fmt_uint_no_bar fmt_int_no_bar ParseSeqId_fmt ParseUserId_fmt
          NewMessage_def msgTypeMap_def NewFollow_def Follow)
  ultimately show ?thesis by simp
next
  case (Unfollow q f t)
  have "String m = join_bar [fmt_uint (unat q), ''U'', fmt_int (sint f), fmt_int (sint t)] @ CRLF"
    by (simp add: Unfollow)
  moreover have "ParseMessage (join_bar [fmt_uint (unat q), ''U'', fmt_int (sint f), fmt_int (sint t)] @ CRLF)
      = (Some m, None)"
    using fmt_uint_props [of "unat q"] fmt_uint_hd [of "unat q"] fmt_int_nonempty [of "sint t"]
      fmt_int_last [of "sint t"] is_digit_not_space
    by (subst ParseMessage_join_bar)
       (simp_all add: fmt_uint_no_bar fmt_int_no_bar ParseSeqId_fmt ParseUserId_fmt
          NewMessage_def msgTypeMap_def NewUnfollow_def Unfollow)
  ultimately show ?thesis by simp
next
  case (Broadcast q)
  have "String m = join_bar [fmt_uint (unat q), ''B''] @ CRLF"
    by (simp add: Broadcast)
  moreover have "ParseMessage (join_bar [fmt_uint (unat q), ''B''] @ CRLF) = (Some m, None)"
    using fmt_uint_props [of "unat q"] fmt_uint_hd [of "unat q"] last_tag
    by (subst ParseMessage_join_bar)
       (simp_all add: fmt_uint_no_bar ParseSeqId_fmt
          NewMessage_def msgTypeMap_def NewBroadcast_def Broadcast)
  ultimately show ?thesis by simp
next
  case (StatusUpdate q f)
  have "String m = join_bar [fmt_uint (unat q), ''S'', fmt_int (sint f)] @ CRLF"
    by (simp add: StatusUpdate)
  moreover have "ParseMessage (join_bar [fmt_uint (unat q), ''S'', fmt_int (sint f)] @ CRLF)
      = (Some m, None)"
    using fmt_uint_props [of "unat q"] fmt_uint_hd [of "unat q"] fmt_int_nonempty [of "sint f"]
      fmt_int_last [of "sint f"] is_digit_not_space
    by (subst ParseMessage_join_bar)
       (simp_all add: fmt_uint_no_bar fmt_int_no_bar ParseSeqId_fmt ParseUserId_fmt
          NewMessage_def msgTypeMap_def NewStatusUpdate_def StatusUpdate)
  ultimately show ?thesis by simp
next
  case (PrivateMessage q f t)
  have "String m = join_bar [fmt_uint (unat q), ''P'', fmt_int (sint f), fmt_int (sint t)] @ CRLF"
    by (simp add: PrivateMessage)
  moreover have "ParseMessage (join_bar [fmt_uint (unat q), ''P'', fmt_int (sint f), fmt_int (sint t)] @ CRLF)
      = (Some m, None)"
    using fmt_uint_props [of "unat q"] fmt_uint_hd [of "unat q"] fmt_int_nonempty [of "sint t"]
      fmt_int_last [of "sint t"] is_digit_not_space
    by (subst ParseMessage_join_bar)
       (simp_all add: fmt_uint_no_bar fmt_int_no_bar ParseSeqId_fmt ParseUserId_fmt
          NewMessage_def msgTypeMap_def NewPrivateMessage_def PrivateMessage)
  ultimately show ?thesis by simp
qed

section \<open>The earlier revision of the codec\<close>

text \<open>
  In the revision of src/unnamed/part_000 a line needs more than two fields, so the line of
  a broadcast is rejected; a line without its line end decodes; and nothing that \<^verbatim>\<open>Format\<close>
  writes decodes, because the line end stays in the last field.
\<close>

lemma v0_broadcast_rejected:
  "ParseMessage_v0 (''1'' @ sep_v0 @ ''B'') = (None, Some (ErrorNew ''Invalid message format''))"
  by (simp add: ParseMessage_v0_def NewMessage_v0_def MessageTypeNo_def MessageTypeStr_def
      typeStrMap_def typeNumMap_def sep_v0_def MsgTypeError_def MsgFollow_def MsgUnfollow_def
      MsgBroadcast_def MsgPrivateMsg_def MsgStatusUpdate_def Split.simps ParseUint_def
      digit_of_def cutoff10_def maxUint64_def fmt_uint.simps digit_char_def CRLF_def Let_def)

lemma v0_status_line:
  "ParseMessage_v0 (''1'' @ sep_v0 @ ''S'' @ sep_v0 @ ''7'')
     = (Some (MessageFrom MsgStatusUpdate 1 7), None)"
  by (simp add: ParseMessage_v0_def NewMessage_v0_def MessageTypeNo_def MessageTypeStr_def
      typeStrMap_def typeNumMap_def sep_v0_def MsgTypeError_def MsgFollow_def MsgUnfollow_def
      MsgBroadcast_def MsgPrivateMsg_def MsgStatusUpdate_def Split.simps ParseUint_def
      digit_of_def cutoff10_def maxUint64_def fmt_uint.simps digit_char_def CRLF_def Let_def)

lemma v0_no_round_trip:
  "ParseMessage_v0 (Format (MessageFrom MsgStatusUpdate 1 7))
     = (None, Some (NumError ''ParseUint'' (''7'' @ CRLF) ErrSyntax))
   \<and> ParseMessage_v0 (Format (MessageNoArgs MsgBroadcast 1))
     = (None, Some (ErrorNew ''Invalid message format''))"
  by (simp add: ParseMessage_v0_def NewMessage_v0_def MessageTypeNo_def MessageTypeStr_def
      typeStrMap_def typeNumMap_def sep_v0_def MsgTypeError_def MsgFollow_def MsgUnfollow_def
      MsgBroadcast_def MsgPrivateMsg_def MsgStatusUpdate_def Split.simps ParseUint_def
      digit_of_def cutoff10_def maxUint64_def fmt_uint.simps digit_char_def CRLF_def Let_def)

end
